theory Spec2Isabelle
  imports Main
begin

section \<open>Simulated media queries: the embedding\<close>

text \<open>
  The hook \<open>useSimulatedMediaQuery\<close> rewrites the width clauses of the media rules that
  lie inside a marked region of the page's own style sheets, and hands back a cleanup
  function that reinstalls the saved rule texts. Strings are \<open>char list\<close>s, the style
  sheets are passed explicitly as state, and a failure of the style-sheet object model
  is a value of type \<open>error\<close>. A run that fails yields the error alone: the hook catches
  nothing, so the exception ends the effect or the cleanup where it is raised, and the
  properties below are about runs that complete.
\<close>

subsection \<open>The constants and the regular expression\<close>

definition ENABLED_MEDIA_QUERY :: string where
  "ENABLED_MEDIA_QUERY = ''(min-width:0px)''"

definition DISABLED_MEDIA_QUERY :: string where
  "DISABLED_MEDIA_QUERY = ''(min-width:999999px)''"

text \<open>A literal piece of a pattern, matched at the head of the text: the rest of the text
  when the literal is there.\<close>

fun strip_literal :: "string \<Rightarrow> string \<Rightarrow> string option" where
  "strip_literal [] s = Some s"
| "strip_literal (p # ps) [] = None"
| "strip_literal (p # ps) (c # cs) = (if p = c then strip_literal ps cs else None)"

text \<open>The group \<open>(min|max)\<close>.\<close>

definition min_or_max :: "string \<Rightarrow> string option" where
  "min_or_max s =
     (case strip_literal ''min'' s of
        Some r \<Rightarrow> Some r
      | None \<Rightarrow> strip_literal ''max'' s)"

text \<open>The tail \<open>[^\(]*?\)\<close>: the lazy star stops at the first closing parenthesis, and
  the class refuses an opening one, so the text up to and including the first \<open>)\<close> is
  consumed unless a \<open>(\<close> or the end of the text comes first. The result is the matched
  text and what follows it.\<close>

fun lazy_until_close :: "string \<Rightarrow> (string \<times> string) option" where
  "lazy_until_close [] = None"
| "lazy_until_close (c # cs) =
     (if c = CHR '')'' then Some ([c], cs)
      else if c = CHR ''('' then None
      else (case lazy_until_close cs of
              None \<Rightarrow> None
            | Some (v, rest) \<Rightarrow> Some (c # v, rest)))"

text \<open>\<open>VALID_MEDIA_QUERY_REGEX\<close>, that is \<open>/\((min|max)-width:[^\(]*?\)/\<close>, tried at the head
  of the text: the matched substring and the text after it.\<close>

definition VALID_MEDIA_QUERY_REGEX :: "string \<Rightarrow> (string \<times> string) option" where
  "VALID_MEDIA_QUERY_REGEX s =
     (case strip_literal ''('' s of
        None \<Rightarrow> None
      | Some s1 \<Rightarrow>
         (case min_or_max s1 of
            None \<Rightarrow> None
          | Some s2 \<Rightarrow>
             (case strip_literal ''-width:'' s2 of
                None \<Rightarrow> None
              | Some s3 \<Rightarrow>
                 (case lazy_until_close s3 of
                    None \<Rightarrow> None
                  | Some (v, rest) \<Rightarrow> Some (take (length s - length rest) s, rest)))))"

text \<open>\<open>text.match( VALID_MEDIA_QUERY_REGEX )\<close> under \<open>!!\<close>: with the flag \<open>g\<close> the result is
  the array of all matches, or null when the expression matches nowhere in the text.\<close>

fun regex_matches_somewhere :: "string \<Rightarrow> bool" where
  "regex_matches_somewhere [] = False"
| "regex_matches_somewhere (c # cs) =
     (VALID_MEDIA_QUERY_REGEX (c # cs) \<noteq> None \<or> regex_matches_somewhere cs)"

lemma strip_literal_length:
  "strip_literal p s = Some r \<Longrightarrow> length s = length p + length r"
  by (induction p s rule: strip_literal.induct) (auto split: if_splits)

lemma lazy_until_close_length:
  "lazy_until_close s = Some (v, r) \<Longrightarrow> length s = length v + length r \<and> 0 < length v"
  by (induction s arbitrary: v r) (auto split: if_splits option.splits)

lemma VALID_MEDIA_QUERY_REGEX_shorter:
  "VALID_MEDIA_QUERY_REGEX s = Some (c, r) \<Longrightarrow> length r < length s"
  by (auto simp: VALID_MEDIA_QUERY_REGEX_def min_or_max_def
      split: option.splits dest!: strip_literal_length lazy_until_close_length)

subsection \<open>Rewriting the width clauses of a rule text\<close>

text \<open>\<open>ruleText.replace( VALID_MEDIA_QUERY_REGEX, callback )\<close>: the text is read from left
  to right; where the expression matches, the callback's string stands for the match
  and reading goes on behind it, elsewhere the character is kept. The function \<open>match\<close>
  of the package css-mediaquery is the parameter \<open>match\<close>, applied to the matched
  substring and the width of \<open>{ type: 'screen', width: widthValue }\<close>.\<close>

function replaceMediaQueryWithWidthEvaluation ::
  "(string \<Rightarrow> int \<Rightarrow> bool) \<Rightarrow> string \<Rightarrow> int \<Rightarrow> string" where
  "replaceMediaQueryWithWidthEvaluation match [] widthValue = []"
| "replaceMediaQueryWithWidthEvaluation match (c # cs) widthValue =
     (case VALID_MEDIA_QUERY_REGEX (c # cs) of
        Some (matchedSubstring, rest) \<Rightarrow>
          (if match matchedSubstring widthValue then ENABLED_MEDIA_QUERY
           else DISABLED_MEDIA_QUERY)
          @ replaceMediaQueryWithWidthEvaluation match rest widthValue
      | None \<Rightarrow> c # replaceMediaQueryWithWidthEvaluation match cs widthValue)"
  by pat_completeness auto
termination
  by (relation "measure (\<lambda>(m, s, w). length s)")
     (auto dest: VALID_MEDIA_QUERY_REGEX_shorter)

subsection \<open>Rules, style sheets and the window\<close>

text \<open>A rule of the style-sheet object model, as far as the hook reads it: its
  \<open>cssText\<close>, and the \<open>mediaText\<close> of its \<open>media\<close> when the rule has one (a media or an
  import rule), \<open>None\<close> otherwise.\<close>

record rule =
  cssText :: string
  media :: "string option"

text \<open>A style sheet: its \<open>href\<close> (null for an inline sheet) and its live list of rules.\<close>

record styleSheet =
  href :: "string option"
  cssRules :: "rule list"

text \<open>What the hook reads of \<open>window\<close>: \<open>window.location.hostname\<close> and
  \<open>window.document.styleSheets\<close>. A sheet object is referred to by its position in this
  list, so that a change made through a reference is seen in the document.\<close>

record window =
  hostname :: string
  styleSheets :: "styleSheet list"

datatype error = IndexSizeError | SyntaxError | TypeError

text \<open>\<open>text.includes( part )\<close>, which is also what \<open>text.match( /part/ )\<close> decides under
  \<open>!!\<close> for a pattern of literal characters.\<close>

fun str_includes :: "string \<Rightarrow> string \<Rightarrow> bool" where
  "str_includes [] part = (part = [])"
| "str_includes (c # cs) part =
     (strip_literal part (c # cs) \<noteq> None \<or> str_includes cs part)"

definition START_MARKER :: string where
  "START_MARKER = ''#start-resizable-editor-section''"

definition END_MARKER :: string where
  "END_MARKER = ''#end-resizable-editor-section''"

text \<open>The sheets kept by the filter, as references in document order. A null or empty
  \<open>href\<close> is falsy.\<close>

definition getStyleSheetsThatMatchHostname :: "window \<Rightarrow> nat list" where
  "getStyleSheetsThatMatchHostname win =
     filter
       (\<lambda>k. case href (styleSheets win ! k) of
               None \<Rightarrow> False
             | Some h \<Rightarrow> h \<noteq> [] \<and> str_includes h (hostname win))
       [0..<length (styleSheets win)]"

definition isReplaceableMediaRule :: "rule \<Rightarrow> bool" where
  "isReplaceableMediaRule r =
     (case media r of
        None \<Rightarrow> False
      | Some mediaText \<Rightarrow> regex_matches_somewhere mediaText)"

text \<open>Modelled from the spec: the two mutation operations of a style sheet, delete at an
  index and insert at an index, belong to the browser and are not part of the
  repository. A rule text that the browser cannot parse and an index outside the list
  are the failures of the object model; \<open>parseRule\<close>, the browser's reading of a rule
  text, is a parameter.\<close>

definition deleteRule :: "styleSheet \<Rightarrow> nat \<Rightarrow> error + styleSheet" where
  "deleteRule sh index =
     (if index < length (cssRules sh)
      then Inr (sh\<lparr>cssRules := take index (cssRules sh) @ drop (Suc index) (cssRules sh)\<rparr>)
      else Inl IndexSizeError)"

definition insertRule ::
  "(string \<Rightarrow> rule option) \<Rightarrow> styleSheet \<Rightarrow> string \<Rightarrow> nat \<Rightarrow> error + styleSheet" where
  "insertRule parseRule sh newRuleText index =
     (if length (cssRules sh) < index then Inl IndexSizeError
      else (case parseRule newRuleText of
              None \<Rightarrow> Inl SyntaxError
            | Some r \<Rightarrow>
                Inr (sh\<lparr>cssRules := take index (cssRules sh) @ r # drop index (cssRules sh)\<rparr>)))"

definition replaceRule ::
  "(string \<Rightarrow> rule option) \<Rightarrow> styleSheet \<Rightarrow> string \<Rightarrow> nat \<Rightarrow> error + styleSheet" where
  "replaceRule parseRule sh newRuleText index =
     (case deleteRule sh index of
        Inl e \<Rightarrow> Inl e
      | Inr sh1 \<Rightarrow> insertRule parseRule sh1 newRuleText index)"

subsection \<open>The saved originals\<close>

text \<open>\<open>originalStyles\<close> is an array of arrays with holes: an entry is \<open>None\<close> where the
  array has a hole. Reading behind the end gives undefined; writing behind the end
  lengthens the array and leaves holes.\<close>

type_synonym originalStyles = "string option list option list"

definition js_get :: "'a option list \<Rightarrow> nat \<Rightarrow> 'a option" where
  "js_get xs i = (if i < length xs then xs ! i else None)"

definition js_set :: "'a option list \<Rightarrow> nat \<Rightarrow> 'a \<Rightarrow> 'a option list" where
  "js_set xs i v =
     (if i < length xs then xs[i := Some v]
      else xs @ replicate (i - length xs) None @ [Some v])"

text \<open>The two statements that record a rule text: the inner array is created when
  \<open>originalStyles[ styleSheetIndex ]\<close> is still undefined, then the text is stored at
  \<open>ruleIndex\<close>.\<close>

definition saveOriginal :: "originalStyles \<Rightarrow> nat \<Rightarrow> nat \<Rightarrow> string \<Rightarrow> originalStyles" where
  "saveOriginal originalStyles styleSheetIndex ruleIndex ruleText =
     (let rulesCollection =
            (case js_get originalStyles styleSheetIndex of
               None \<Rightarrow> []
             | Some collection \<Rightarrow> collection)
      in js_set originalStyles styleSheetIndex (js_set rulesCollection ruleIndex ruleText))"

text \<open>The saved text of a position, if there is one.\<close>

definition savedOriginal :: "originalStyles \<Rightarrow> nat \<Rightarrow> nat \<Rightarrow> string option" where
  "savedOriginal originalStyles styleSheetIndex ruleIndex =
     (case js_get originalStyles styleSheetIndex of
        None \<Rightarrow> None
      | Some rulesCollection \<Rightarrow> js_get rulesCollection ruleIndex)"

subsection \<open>The effect: scanning and rewriting\<close>

lemma replaceRule_length:
  "replaceRule parseRule sh t i = Inr sh' \<Longrightarrow> length (cssRules sh') = length (cssRules sh)"
  by (auto simp: replaceRule_def deleteRule_def insertRule_def
      split: if_splits option.splits)

text \<open>The loop over the rules of one sheet, from \<open>ruleIndex\<close> on. The length of the
  rule list is read again at every turn.\<close>

function scanRules ::
  "(string \<Rightarrow> int \<Rightarrow> bool) \<Rightarrow> (string \<Rightarrow> rule option) \<Rightarrow> int \<Rightarrow> nat \<Rightarrow> nat \<Rightarrow> bool \<Rightarrow>
   styleSheet \<Rightarrow> originalStyles \<Rightarrow> error + (styleSheet \<times> originalStyles)" where
  "scanRules match parseRule width styleSheetIndex ruleIndex relevantSection sh originalStyles =
     (if ruleIndex < length (cssRules sh) then
        let r = cssRules sh ! ruleIndex;
            relevantSection1 =
              (if \<not> relevantSection \<and> str_includes (cssText r) START_MARKER then True
               else relevantSection);
            relevantSection2 =
              (if relevantSection1 \<and> str_includes (cssText r) END_MARKER then False
               else relevantSection1)
        in if \<not> relevantSection2 \<or> \<not> isReplaceableMediaRule r
           then scanRules match parseRule width styleSheetIndex (Suc ruleIndex)
                  relevantSection2 sh originalStyles
           else
             (case replaceRule parseRule sh
                     (replaceMediaQueryWithWidthEvaluation match (cssText r) width) ruleIndex of
                Inl e \<Rightarrow> Inl e
              | Inr sh' \<Rightarrow>
                  scanRules match parseRule width styleSheetIndex (Suc ruleIndex)
                    relevantSection2 sh'
                    (saveOriginal originalStyles styleSheetIndex ruleIndex (cssText r)))
      else Inr (sh, originalStyles))"
  by pat_completeness auto
termination
  by (relation "measure (\<lambda>(m, p, w, s, i, b, sh, orig). length (cssRules sh) - i)")
     (auto dest: replaceRule_length)

declare scanRules.simps [simp del]

text \<open>\<open>styleSheets.forEach\<close>: the sheets kept by the filter in turn, \<open>styleSheetIndex\<close>
  counting them. A reference always is a sheet of the document; a position that is
  none is reported as a type error.\<close>

fun scanStyleSheets ::
  "(string \<Rightarrow> int \<Rightarrow> bool) \<Rightarrow> (string \<Rightarrow> rule option) \<Rightarrow> int \<Rightarrow> nat list \<Rightarrow> nat \<Rightarrow>
   styleSheet list \<Rightarrow> originalStyles \<Rightarrow> error + (styleSheet list \<times> originalStyles)" where
  "scanStyleSheets match parseRule width [] styleSheetIndex doc originalStyles =
     Inr (doc, originalStyles)"
| "scanStyleSheets match parseRule width (ref # refs) styleSheetIndex doc originalStyles =
     (if ref < length doc then
        (case scanRules match parseRule width styleSheetIndex 0 False (doc ! ref)
                originalStyles of
           Inl e \<Rightarrow> Inl e
         | Inr (sh, originalStyles') \<Rightarrow>
             scanStyleSheets match parseRule width refs (Suc styleSheetIndex)
               (doc[ref := sh]) originalStyles')
      else Inl TypeError)"

text \<open>The body of the effect. Its result is the window with the rewritten sheets and
  what the returned cleanup function holds: the filtered array \<open>styleSheets\<close> and
  \<open>originalStyles\<close>.\<close>

definition useSimulatedMediaQuery ::
  "(string \<Rightarrow> int \<Rightarrow> bool) \<Rightarrow> (string \<Rightarrow> rule option) \<Rightarrow> window \<Rightarrow> int \<Rightarrow>
   error + (window \<times> nat list \<times> originalStyles)" where
  "useSimulatedMediaQuery match parseRule win width =
     (let matching = getStyleSheetsThatMatchHostname win
      in case scanStyleSheets match parseRule width matching 0 (styleSheets win) [] of
           Inl e \<Rightarrow> Inl e
         | Inr (doc, originalStyles) \<Rightarrow>
             Inr (win\<lparr>styleSheets := doc\<rparr>, matching, originalStyles))"

subsection \<open>The cleanup: restoring\<close>

text \<open>\<open>replaceRule( styleSheets[ styleSheetIndex ], originalRuleText, ruleIndex )\<close> on the
  live sheets; \<open>styleSheets[ styleSheetIndex ]\<close> is undefined behind the end of the
  filtered array.\<close>

definition replaceRuleOf ::
  "(string \<Rightarrow> rule option) \<Rightarrow> nat list \<Rightarrow> nat \<Rightarrow> string \<Rightarrow> nat \<Rightarrow> styleSheet list \<Rightarrow>
   error + styleSheet list" where
  "replaceRuleOf parseRule matching styleSheetIndex newRuleText ruleIndex doc =
     (if styleSheetIndex < length matching \<and> matching ! styleSheetIndex < length doc then
        (case replaceRule parseRule (doc ! (matching ! styleSheetIndex)) newRuleText
                ruleIndex of
           Inl e \<Rightarrow> Inl e
         | Inr sh \<Rightarrow> Inr (doc[matching ! styleSheetIndex := sh]))
      else Inl TypeError)"

text \<open>The inner loop over one \<open>rulesCollection\<close>, from \<open>ruleIndex\<close> on; a hole, undefined
  and the empty string are falsy.\<close>

fun restoreRules ::
  "(string \<Rightarrow> rule option) \<Rightarrow> nat list \<Rightarrow> nat \<Rightarrow> string option list \<Rightarrow> nat \<Rightarrow>
   styleSheet list \<Rightarrow> error + styleSheet list" where
  "restoreRules parseRule matching styleSheetIndex [] ruleIndex doc = Inr doc"
| "restoreRules parseRule matching styleSheetIndex (originalRuleText # others) ruleIndex doc =
     (case originalRuleText of
        None \<Rightarrow> restoreRules parseRule matching styleSheetIndex others (Suc ruleIndex) doc
      | Some t \<Rightarrow>
          if t = [] then
            restoreRules parseRule matching styleSheetIndex others (Suc ruleIndex) doc
          else
            (case replaceRuleOf parseRule matching styleSheetIndex t ruleIndex doc of
               Inl e \<Rightarrow> Inl e
             | Inr doc' \<Rightarrow>
                 restoreRules parseRule matching styleSheetIndex others (Suc ruleIndex) doc'))"

text \<open>\<open>originalStyles.forEach\<close>, from \<open>styleSheetIndex\<close> on; an entry that is a hole or
  undefined is passed over.\<close>

fun restoreStyleSheets ::
  "(string \<Rightarrow> rule option) \<Rightarrow> nat list \<Rightarrow> originalStyles \<Rightarrow> nat \<Rightarrow> styleSheet list \<Rightarrow>
   error + styleSheet list" where
  "restoreStyleSheets parseRule matching [] styleSheetIndex doc = Inr doc"
| "restoreStyleSheets parseRule matching (rulesCollection # others) styleSheetIndex doc =
     (case rulesCollection of
        None \<Rightarrow> restoreStyleSheets parseRule matching others (Suc styleSheetIndex) doc
      | Some collection \<Rightarrow>
          (case restoreRules parseRule matching styleSheetIndex collection 0 doc of
             Inl e \<Rightarrow> Inl e
           | Inr doc' \<Rightarrow>
               restoreStyleSheets parseRule matching others (Suc styleSheetIndex) doc'))"

text \<open>The function the effect returns, applied to the window as it is when it runs.\<close>

definition cleanup ::
  "(string \<Rightarrow> rule option) \<Rightarrow> nat list \<times> originalStyles \<Rightarrow> window \<Rightarrow> error + window" where
  "cleanup parseRule closure win =
     (case restoreStyleSheets parseRule (fst closure) (snd closure) 0 (styleSheets win) of
        Inl e \<Rightarrow> Inl e
      | Inr doc \<Rightarrow> Inr (win\<lparr>styleSheets := doc\<rparr>))"

subsection \<open>Width clauses and the segments of a rule text\<close>

text \<open>A width clause is a text that the regular expression matches as a whole.\<close>

definition is_width_clause :: "string \<Rightarrow> bool" where
  "is_width_clause c = (VALID_MEDIA_QUERY_REGEX c = Some (c, []))"

text \<open>A rule text cut into segments: each segment is a stretch of plain text followed by
  a width clause, and \<open>rest\<close> is the plain text behind the last clause. The cut is
  \<open>segmented\<close> when the regular expression matches nowhere inside a plain stretch.\<close>

definition assemble :: "(string \<times> string) list \<Rightarrow> string \<Rightarrow> string" where
  "assemble segments rest = concat (map (\<lambda>(plain, clause). plain @ clause) segments) @ rest"

definition segmented :: "(string \<times> string) list \<Rightarrow> string \<Rightarrow> bool" where
  "segmented segments rest =
     ((\<forall>(plain, clause) \<in> set segments.
         \<not> regex_matches_somewhere plain \<and> is_width_clause clause)
      \<and> \<not> regex_matches_somewhere rest)"

subsection \<open>The matching utility\<close>

text \<open>Modelled from the spec: \<open>match\<close> of the package css-mediaquery is an external
  dependency and not part of the repository. According to the spec a \<open>min-width:V\<close>
  clause matches when the target width is at least \<open>V\<close> and a \<open>max-width:V\<close> clause when
  it is at most \<open>V\<close>. \<open>V\<close> is read as a decimal number of pixels, as in the clauses
  \<open>min-width:500px\<close> and \<open>min-width:768px\<close> of the spec; about any other text the spec is
  silent, and the model lets it match nothing.\<close>

definition digit_value :: "char \<Rightarrow> nat option" where
  "digit_value c =
     (let n = (of_char c :: nat) in if 48 \<le> n \<and> n \<le> 57 then Some (n - 48) else None)"

fun decimal_digits :: "nat \<Rightarrow> string \<Rightarrow> nat option" where
  "decimal_digits acc [] = Some acc"
| "decimal_digits acc (c # cs) =
     (case digit_value c of
        None \<Rightarrow> None
      | Some d \<Rightarrow> decimal_digits (10 * acc + d) cs)"

definition px_length :: "string \<Rightarrow> nat option" where
  "px_length body =
     (case strip_literal '')xp'' (rev body) of
        None \<Rightarrow> None
      | Some ds \<Rightarrow> if ds = [] then None else decimal_digits 0 (rev ds))"

definition css_match :: "string \<Rightarrow> int \<Rightarrow> bool" where
  "css_match query width =
     (case strip_literal ''(min-width:'' query of
        Some body \<Rightarrow> (case px_length body of Some v \<Rightarrow> int v \<le> width | None \<Rightarrow> False)
      | None \<Rightarrow>
         (case strip_literal ''(max-width:'' query of
            Some body \<Rightarrow> (case px_length body of Some v \<Rightarrow> width \<le> int v | None \<Rightarrow> False)
          | None \<Rightarrow> False))"

subsection \<open>What the scan decides, stated on the rule list\<close>

text \<open>The two marker tests of the loop body.\<close>

definition hasStartMarker :: "rule \<Rightarrow> bool" where
  "hasStartMarker r = str_includes (cssText r) START_MARKER"

definition hasEndMarker :: "rule \<Rightarrow> bool" where
  "hasEndMarker r = str_includes (cssText r) END_MARKER"

text \<open>The value of \<open>relevantSection\<close> after the two marker statements of the loop body,
  from its value before them.\<close>

definition relevantAfter :: "bool \<Rightarrow> rule \<Rightarrow> bool" where
  "relevantAfter relevantSection r =
     ((relevantSection \<or> str_includes (cssText r) START_MARKER)
      \<and> \<not> str_includes (cssText r) END_MARKER)"

text \<open>The value of \<open>relevantSection\<close> when the loop reaches rule \<open>i\<close> of a sheet, computed
  on the sheet's rules as they are before the scan.\<close>

fun relevantSectionBefore :: "rule list \<Rightarrow> nat \<Rightarrow> bool" where
  "relevantSectionBefore rs 0 = False"
| "relevantSectionBefore rs (Suc i) = relevantAfter (relevantSectionBefore rs i) (rs ! i)"

text \<open>Rule \<open>i\<close> passes the guard of the loop body: the scan replaces it.\<close>

definition isRewritten :: "rule list \<Rightarrow> nat \<Rightarrow> bool" where
  "isRewritten rs i =
     (i < length rs \<and> relevantSectionBefore rs (Suc i) \<and> isReplaceableMediaRule (rs ! i))"

text \<open>A sheet and what the scan makes of it: the rules that pass the guard are the
  browser's reading of their rewritten text, the others are as before.\<close>

definition rewrittenSheet ::
  "(string \<Rightarrow> int \<Rightarrow> bool) \<Rightarrow> (string \<Rightarrow> rule option) \<Rightarrow> int \<Rightarrow> styleSheet \<Rightarrow> styleSheet \<Rightarrow> bool" where
  "rewrittenSheet match parseRule width sh sh' =
     (href sh' = href sh \<and> length (cssRules sh') = length (cssRules sh) \<and>
      (\<forall>j < length (cssRules sh).
         if isRewritten (cssRules sh) j
         then parseRule (replaceMediaQueryWithWidthEvaluation match (cssText (cssRules sh ! j)) width)
                = Some (cssRules sh' ! j)
         else cssRules sh' ! j = cssRules sh ! j))"

subsection \<open>What the cleanup installs\<close>

text \<open>The rule at a position after the cleanup, from the saved entry of the position and
  the rule before the cleanup.\<close>

definition restoredRule ::
  "(string \<Rightarrow> rule option) \<Rightarrow> string option \<Rightarrow> rule \<Rightarrow> rule" where
  "restoredRule p saved r =
     (case saved of
        None \<Rightarrow> r
      | Some t \<Rightarrow> if t = [] then r else (case p t of None \<Rightarrow> r | Some r' \<Rightarrow> r'))"

text \<open>The browser reads the text of a rule back as a rule with that text.\<close>

definition reparses :: "(string \<Rightarrow> rule option) \<Rightarrow> rule \<Rightarrow> bool" where
  "reparses parseRule r =
     (case parseRule (cssText r) of
        None \<Rightarrow> False
      | Some r' \<Rightarrow> cssText r' = cssText r)"

text \<open>Two lists of sheets with the same number of sheets, the same \<open>href\<close>s and the same
  numbers of rules; and two runs of the cleanup in step, one from \<open>d0\<close> and one from
  \<open>e0\<close>: at every position either both runs have installed the same rule, or neither
  has touched it.\<close>

definition sameShape :: "styleSheet list \<Rightarrow> styleSheet list \<Rightarrow> bool" where
  "sameShape d e =
     (length e = length d \<and>
      (\<forall>k < length d. href (e ! k) = href (d ! k) \<and>
         length (cssRules (e ! k)) = length (cssRules (d ! k))))"

definition inStep ::
  "styleSheet list \<Rightarrow> styleSheet list \<Rightarrow> styleSheet list \<Rightarrow> styleSheet list \<Rightarrow> bool" where
  "inStep d0 e0 d e =
     (sameShape d0 e0 \<and> sameShape d0 d \<and> sameShape d0 e \<and>
      (\<forall>k < length d0. \<forall>j < length (cssRules (d0 ! k)).
         cssRules (d ! k) ! j = cssRules (e ! k) ! j \<or>
         (cssRules (d ! k) ! j = cssRules (d0 ! k) ! j \<and>
          cssRules (e ! k) ! j = cssRules (e0 ! k) ! j)))"

subsection \<open>A document for the examples\<close>

text \<open>For the examples a rule is made from its text alone: a text that begins with
  \<open>@media\<close> has the condition up to the opening brace as its \<open>mediaText\<close>. The example
  browser reads every text but the empty one; a second one also refuses every text
  that mentions \<open>600px\<close>.\<close>

definition textRule :: "string \<Rightarrow> rule" where
  "textRule t =
     \<lparr>cssText = t,
      media = (case strip_literal ''@media '' t of
                 None \<Rightarrow> None
               | Some r \<Rightarrow> Some (takeWhile (\<lambda>c. c \<noteq> CHR ''{'') r))\<rparr>"

definition parseText :: "string \<Rightarrow> rule option" where
  "parseText t = (if t = [] then None else Some (textRule t))"

definition rejectingParse :: "string \<Rightarrow> rule option" where
  "rejectingParse t = (if str_includes t ''600px'' then None else parseText t)"

text \<open>A window with four sheets: one from another host, one of the page's host with a
  closed region, an inline one, and one of the page's host whose region is never
  closed; and the same window while the width 320 is simulated.\<close>

definition foreignSheet :: styleSheet where
  "foreignSheet =
     \<lparr>href = Some ''https://cdn.example.net/theme.css'',
      cssRules =
        [textRule ''#start-resizable-editor-section{display:none}'',
         textRule ''@media (min-width:600px){a{top:0}}'']\<rparr>"

definition editorSheet :: styleSheet where
  "editorSheet =
     \<lparr>href = Some ''https://example.org/editor.css'',
      cssRules =
        [textRule ''@media (min-width:600px){a{top:0}}'',
         textRule ''#start-resizable-editor-section{display:none}'',
         textRule ''@media (min-width:600px){a{top:0}}'',
         textRule ''b{top:0}'',
         textRule ''@media (max-width:782px) and (orientation:landscape){a{top:0}}'',
         textRule ''#end-resizable-editor-section{display:none}'',
         textRule ''@media (min-width:600px){a{top:0}}'']\<rparr>"

definition inlineSheet :: styleSheet where
  "inlineSheet = \<lparr>href = None, cssRules = [textRule ''@media (min-width:600px){a{top:0}}'']\<rparr>"

definition openSheet :: styleSheet where
  "openSheet =
     \<lparr>href = Some ''https://example.org/blocks.css'',
      cssRules =
        [textRule ''b{top:0}'',
         textRule ''#start-resizable-editor-section{display:none}'',
         textRule ''@media (min-width:600px){a{top:0}}'',
         textRule ''b{top:0}'',
         textRule ''@media (max-width:782px){a{top:0}}'']\<rparr>"

definition exampleWindow :: window where
  "exampleWindow =
     \<lparr>hostname = ''example.org'',
      styleSheets = [foreignSheet, editorSheet, inlineSheet, openSheet]\<rparr>"

definition editorSheetAt320 :: styleSheet where
  "editorSheetAt320 =
     \<lparr>href = Some ''https://example.org/editor.css'',
      cssRules =
        [textRule ''@media (min-width:600px){a{top:0}}'',
         textRule ''#start-resizable-editor-section{display:none}'',
         textRule ''@media (min-width:999999px){a{top:0}}'',
         textRule ''b{top:0}'',
         textRule ''@media (min-width:0px) and (orientation:landscape){a{top:0}}'',
         textRule ''#end-resizable-editor-section{display:none}'',
         textRule ''@media (min-width:600px){a{top:0}}'']\<rparr>"

definition openSheetAt320 :: styleSheet where
  "openSheetAt320 =
     \<lparr>href = Some ''https://example.org/blocks.css'',
      cssRules =
        [textRule ''b{top:0}'',
         textRule ''#start-resizable-editor-section{display:none}'',
         textRule ''@media (min-width:999999px){a{top:0}}'',
         textRule ''b{top:0}'',
         textRule ''@media (min-width:0px){a{top:0}}'']\<rparr>"

definition exampleWindowAt320 :: window where
  "exampleWindowAt320 =
     \<lparr>hostname = ''example.org'',
      styleSheets = [foreignSheet, editorSheetAt320, inlineSheet, openSheetAt320]\<rparr>"

definition exampleOriginals :: originalStyles where
  "exampleOriginals =
     [Some [None, None, Some ''@media (min-width:600px){a{top:0}}'', None,
            Some ''@media (max-width:782px) and (orientation:landscape){a{top:0}}''],
      Some [None, None, Some ''@media (min-width:600px){a{top:0}}'', None,
            Some ''@media (max-width:782px){a{top:0}}'']]"

text \<open>Sheets whose markers are not rules of their own: the markers inside media rules,
  a sheet that is one media rule around the start marker, and a sheet in which a
  minifier has merged the two marker rules into one. The last window has no marker.\<close>

definition markersInsideWindow :: window where
  "markersInsideWindow =
     \<lparr>hostname = ''example.org'',
      styleSheets =
        [\<lparr>href = Some ''https://example.org/merged.css'',
          cssRules =
            [textRule ''@media (min-width:600px){#start-resizable-editor-section{display:none}}'',
             textRule ''@media (min-width:600px){a{top:0}}'',
             textRule ''@media (min-width:600px){#end-resizable-editor-section{display:none}}'',
             textRule ''@media (min-width:600px){a{top:0}}'']\<rparr>]\<rparr>"

definition markersInsideWindowAt320 :: window where
  "markersInsideWindowAt320 =
     \<lparr>hostname = ''example.org'',
      styleSheets =
        [\<lparr>href = Some ''https://example.org/merged.css'',
          cssRules =
            [textRule ''@media (min-width:999999px){#start-resizable-editor-section{display:none}}'',
             textRule ''@media (min-width:999999px){a{top:0}}'',
             textRule ''@media (min-width:600px){#end-resizable-editor-section{display:none}}'',
             textRule ''@media (min-width:600px){a{top:0}}'']\<rparr>]\<rparr>"

definition startInsideMediaWindow :: window where
  "startInsideMediaWindow =
     \<lparr>hostname = ''example.org'',
      styleSheets =
        [\<lparr>href = Some ''https://example.org/merged.css'',
          cssRules =
            [textRule ''@media (min-width:600px){#start-resizable-editor-section{display:none}}'']\<rparr>]\<rparr>"

definition mergedMarkersWindow :: window where
  "mergedMarkersWindow =
     \<lparr>hostname = ''example.org'',
      styleSheets =
        [\<lparr>href = Some ''https://example.org/minified.css'',
          cssRules =
            [textRule ''#start-resizable-editor-section,#end-resizable-editor-section{display:none}'',
             textRule ''@media (min-width:600px){a{top:0}}'']\<rparr>]\<rparr>"

definition unmarkedWindow :: window where
  "unmarkedWindow =
     \<lparr>hostname = ''example.org'',
      styleSheets =
        [\<lparr>href = Some ''https://example.org/plain.css'',
          cssRules = [textRule ''@media (min-width:600px){a{top:0}}'']\<rparr>]\<rparr>"

section \<open>Properties\<close>

subsection \<open>The regular expression\<close>

lemma strip_literal_Some_iff: "strip_literal p s = Some r \<longleftrightarrow> s = p @ r"
  by (induction p s rule: strip_literal.induct) auto

lemma strip_literal_None_ext:
  "strip_literal p s = None \<Longrightarrow> x \<notin> set p \<Longrightarrow> strip_literal p (s @ x # rest) = None"
  by (induction p s rule: strip_literal.induct) (auto split: if_splits)

lemma min_or_max_Some_ext: "min_or_max s = Some r \<Longrightarrow> min_or_max (s @ t) = Some (r @ t)"
  by (auto simp: min_or_max_def strip_literal_Some_iff split: option.splits)

lemma min_or_max_None_ext:
  "min_or_max s = None \<Longrightarrow> min_or_max (s @ CHR ''('' # rest) = None"
  by (auto simp: min_or_max_def strip_literal_None_ext split: option.splits)

lemma lazy_until_close_Some_ext:
  "lazy_until_close s = Some (v, r) \<Longrightarrow> lazy_until_close (s @ t) = Some (v, r @ t)"
  by (induction s arbitrary: v r) (auto split: if_splits option.splits)

lemma lazy_until_close_None_ext:
  "lazy_until_close s = None \<Longrightarrow> lazy_until_close (s @ CHR ''('' # rest) = None"
  by (induction s) (auto split: if_splits option.splits)

lemma regex_Some_parts:
  "VALID_MEDIA_QUERY_REGEX s = Some (c, r) \<longleftrightarrow>
     (\<exists>s1 s2 s3 v. strip_literal ''('' s = Some s1 \<and> min_or_max s1 = Some s2 \<and>
        strip_literal ''-width:'' s2 = Some s3 \<and> lazy_until_close s3 = Some (v, r) \<and>
        c = take (length s - length r) s)"
  by (auto simp: VALID_MEDIA_QUERY_REGEX_def split: option.splits)

lemma regex_Some_ext:
  assumes "VALID_MEDIA_QUERY_REGEX s = Some (c, r)"
  shows "VALID_MEDIA_QUERY_REGEX (s @ t) = Some (c, r @ t)"
proof -
  from assms obtain s1 s2 s3 v where
    a: "strip_literal ''('' s = Some s1" and b: "min_or_max s1 = Some s2" and
    c: "strip_literal ''-width:'' s2 = Some s3" and d: "lazy_until_close s3 = Some (v, r)" and
    e: "c = take (length s - length r) s"
    unfolding regex_Some_parts by blast
  have a': "strip_literal ''('' (s @ t) = Some (s1 @ t)"
    using a by (simp add: strip_literal_Some_iff)
  have c': "strip_literal ''-width:'' (s2 @ t) = Some (s3 @ t)"
    using c by (simp add: strip_literal_Some_iff)
  have e': "c = take (length (s @ t) - length (r @ t)) (s @ t)"
    using e by simp
  show ?thesis
    unfolding regex_Some_parts
    using a' min_or_max_Some_ext [OF b] c' lazy_until_close_Some_ext [OF d] e'
    by blast
qed

lemma regex_matched_prefix:
  assumes "VALID_MEDIA_QUERY_REGEX s = Some (c, r)"
  shows "s = c @ r"
proof -
  from assms have "length r < length s"
    by (rule VALID_MEDIA_QUERY_REGEX_shorter)
  moreover from assms obtain s1 s2 s3 v where
    a: "strip_literal ''('' s = Some s1" and b: "min_or_max s1 = Some s2" and
    c: "strip_literal ''-width:'' s2 = Some s3" and d: "lazy_until_close s3 = Some (v, r)" and
    e: "c = take (length s - length r) s"
    unfolding regex_Some_parts by blast
  have "s3 = v @ r" using d
    by (induction s3 arbitrary: v) (auto split: if_splits option.splits)
  moreover have "\<exists>u. s = u @ s3"
    using a b c by (auto simp: strip_literal_Some_iff min_or_max_def split: option.splits)
  ultimately show ?thesis using e by auto
qed

lemma regex_None_ext:
  assumes "VALID_MEDIA_QUERY_REGEX (c # cs) = None"
  shows "VALID_MEDIA_QUERY_REGEX (c # cs @ CHR ''('' # rest) = None"
proof (cases "c = CHR ''(''")
  case False
  then show ?thesis by (simp add: VALID_MEDIA_QUERY_REGEX_def)
next
  case True
  show ?thesis
  proof (cases "min_or_max cs")
    case None
    then show ?thesis
      using True by (simp add: VALID_MEDIA_QUERY_REGEX_def min_or_max_None_ext)
  next
    case (Some s2)
    note mm = min_or_max_Some_ext [OF Some, of "CHR ''('' # rest"]
    show ?thesis
    proof (cases "strip_literal ''-width:'' s2")
      case None
      have "strip_literal ''-width:'' (s2 @ CHR ''('' # rest) = None"
        by (rule strip_literal_None_ext [OF None]) simp
      then show ?thesis
        using True mm by (simp add: VALID_MEDIA_QUERY_REGEX_def)
    next
      case (Some s3)
      then have s3: "strip_literal ''-width:'' (s2 @ CHR ''('' # rest) = Some (s3 @ CHR ''('' # rest)"
        by (simp add: strip_literal_Some_iff)
      have "lazy_until_close s3 = None"
        using assms True \<open>min_or_max cs = Some s2\<close> Some
        by (auto simp: VALID_MEDIA_QUERY_REGEX_def split: option.splits)
      then have "lazy_until_close (s3 @ CHR ''('' # rest) = None"
        by (rule lazy_until_close_None_ext)
      then show ?thesis
        using True mm s3 by (simp add: VALID_MEDIA_QUERY_REGEX_def)
    qed
  qed
qed

lemma clause_free_Cons:
  "\<not> regex_matches_somewhere (c # cs) \<longleftrightarrow>
     VALID_MEDIA_QUERY_REGEX (c # cs) = None \<and> \<not> regex_matches_somewhere cs"
  by (cases "VALID_MEDIA_QUERY_REGEX (c # cs)") auto

lemma replace_clause_free:
  "\<not> regex_matches_somewhere p \<Longrightarrow>
   replaceMediaQueryWithWidthEvaluation m p w = p"
proof (induction p)
  case Nil
  then show ?case by simp
next
  case (Cons c cs)
  then have "VALID_MEDIA_QUERY_REGEX (c # cs) = None" and "\<not> regex_matches_somewhere cs"
    unfolding clause_free_Cons by blast+
  with Cons.IH show ?case by simp
qed

lemma replace_clause_free_append:
  "\<not> regex_matches_somewhere p \<Longrightarrow>
   replaceMediaQueryWithWidthEvaluation m (p @ CHR ''('' # rest) w =
     p @ replaceMediaQueryWithWidthEvaluation m (CHR ''('' # rest) w"
proof (induction p)
  case Nil
  then show ?case by simp
next
  case (Cons c cs)
  then have n: "VALID_MEDIA_QUERY_REGEX (c # cs) = None" and f: "\<not> regex_matches_somewhere cs"
    unfolding clause_free_Cons by blast+
  have "VALID_MEDIA_QUERY_REGEX (c # cs @ CHR ''('' # rest) = None"
    using n by (rule regex_None_ext)
  then have "replaceMediaQueryWithWidthEvaluation m ((c # cs) @ CHR ''('' # rest) w =
     c # replaceMediaQueryWithWidthEvaluation m (cs @ CHR ''('' # rest) w"
    by simp
  with Cons.IH [OF f] show ?case by simp
qed

lemma width_clause_head: "is_width_clause c \<Longrightarrow> \<exists>c'. c = CHR ''('' # c'"
  by (auto simp: is_width_clause_def VALID_MEDIA_QUERY_REGEX_def strip_literal_Some_iff
      split: option.splits)

lemma replace_clause:
  assumes "is_width_clause c"
  shows "replaceMediaQueryWithWidthEvaluation m (c @ rest) w =
    (if m c w then ENABLED_MEDIA_QUERY else DISABLED_MEDIA_QUERY)
    @ replaceMediaQueryWithWidthEvaluation m rest w"
proof -
  from assms obtain c' where c: "c = CHR ''('' # c'"
    using width_clause_head by blast
  have "VALID_MEDIA_QUERY_REGEX (c @ rest) = Some (c, rest)"
    using regex_Some_ext [of c c "[]" rest] assms by (simp add: is_width_clause_def)
  then show ?thesis
    unfolding c by simp
qed

lemma replace_step:
  assumes "\<not> regex_matches_somewhere before" and "is_width_clause clause"
  shows "replaceMediaQueryWithWidthEvaluation m (before @ clause @ rest) w =
    before @ (if m clause w then ENABLED_MEDIA_QUERY else DISABLED_MEDIA_QUERY)
    @ replaceMediaQueryWithWidthEvaluation m rest w"
proof -
  from assms(2) obtain c' where c: "clause = CHR ''('' # c'"
    using width_clause_head by blast
  have "replaceMediaQueryWithWidthEvaluation m (before @ clause @ rest) w =
    before @ replaceMediaQueryWithWidthEvaluation m (clause @ rest) w"
    unfolding c using replace_clause_free_append [OF assms(1)] by simp
  then show ?thesis
    by (simp only: replace_clause [OF assms(2)])
qed

lemma lazy_until_close_parts:
  "lazy_until_close s = Some (v, r) \<Longrightarrow>
     \<exists>u. v = u @ '')'' \<and> s = v @ r \<and> CHR ''('' \<notin> set u \<and> CHR '')'' \<notin> set u"
proof (induction s arbitrary: v)
  case Nil
  then show ?case by simp
next
  case (Cons c cs)
  show ?case
  proof (cases "c = CHR '')''")
    case True
    with Cons.prems have "v = [] @ '')''" "c # cs = v @ r" by auto
    then show ?thesis by (metis empty_iff empty_set)
  next
    case False
    with Cons.prems have nopen: "c \<noteq> CHR ''(''" by (auto split: if_splits)
    from Cons.prems False nopen obtain v' where
      v': "lazy_until_close cs = Some (v', r)" and v: "v = c # v'"
      by (auto split: option.splits)
    from Cons.IH [OF v'] obtain u where
      u: "v' = u @ '')''" "cs = v' @ r" "CHR ''('' \<notin> set u" "CHR '')'' \<notin> set u"
      by blast
    have "v = (c # u) @ '')''" "c # cs = v @ r" "CHR ''('' \<notin> set (c # u)" "CHR '')'' \<notin> set (c # u)"
      using u v False nopen by auto
    then show ?thesis by blast
  qed
qed

lemma lazy_until_close_plain:
  "CHR ''('' \<notin> set u \<Longrightarrow> CHR '')'' \<notin> set u \<Longrightarrow>
   lazy_until_close (u @ CHR '')'' # r) = Some (u @ '')'', r)"
  by (induction u) auto

lemma is_width_clause_parts:
  assumes "is_width_clause c"
  shows "\<exists>v. (c = ''(min-width:'' @ v @ '')'' \<or> c = ''(max-width:'' @ v @ '')'') \<and>
          CHR ''('' \<notin> set v \<and> CHR '')'' \<notin> set v"
proof -
  from assms obtain s1 s2 s3 v where
    a: "strip_literal ''('' c = Some s1" and b: "min_or_max s1 = Some s2" and
    c: "strip_literal ''-width:'' s2 = Some s3" and d: "lazy_until_close s3 = Some (v, [])"
    unfolding is_width_clause_def regex_Some_parts by blast
  from lazy_until_close_parts [OF d] obtain u where
    u: "s3 = u @ '')''" "CHR ''('' \<notin> set u" "CHR '')'' \<notin> set u"
    by auto
  have "s1 = ''min'' @ s2 \<or> s1 = ''max'' @ s2"
    using b by (auto simp: strip_literal_Some_iff min_or_max_def split: option.splits)
  moreover have "c = ''('' @ s1" "s2 = ''-width:'' @ s3"
    using a c by (simp_all only: strip_literal_Some_iff)
  ultimately have "c = ''(min-width:'' @ u @ '')'' \<or> c = ''(max-width:'' @ u @ '')''"
    using u(1) by auto
  with u show ?thesis by blast
qed

lemma width_clause_min:
  assumes "CHR ''('' \<notin> set v" "CHR '')'' \<notin> set v"
  shows "is_width_clause (''(min-width:'' @ v @ '')'')"
proof -
  have "lazy_until_close (v @ '')'') = Some (v @ '')'', [])"
    using lazy_until_close_plain [OF assms, of "[]"] by simp
  then show ?thesis
    by (simp add: is_width_clause_def VALID_MEDIA_QUERY_REGEX_def min_or_max_def)
qed

lemma width_clause_max:
  assumes "CHR ''('' \<notin> set v" "CHR '')'' \<notin> set v"
  shows "is_width_clause (''(max-width:'' @ v @ '')'')"
proof -
  have "lazy_until_close (v @ '')'') = Some (v @ '')'', [])"
    using lazy_until_close_plain [OF assms, of "[]"] by simp
  then show ?thesis
    by (simp add: is_width_clause_def VALID_MEDIA_QUERY_REGEX_def min_or_max_def)
qed

lemma regex_match_is_clause:
  assumes "VALID_MEDIA_QUERY_REGEX s = Some (c, r)"
  shows "is_width_clause c"
proof -
  from assms obtain s1 s2 s3 v where
    a: "strip_literal ''('' s = Some s1" and b: "min_or_max s1 = Some s2" and
    c: "strip_literal ''-width:'' s2 = Some s3" and d: "lazy_until_close s3 = Some (v, r)"
    unfolding regex_Some_parts by blast
  from lazy_until_close_parts [OF d] obtain u where
    u: "v = u @ '')''" "s3 = v @ r" "CHR ''('' \<notin> set u" "CHR '')'' \<notin> set u"
    by auto
  have "s1 = ''min'' @ s2 \<or> s1 = ''max'' @ s2"
    using b by (auto simp: strip_literal_Some_iff min_or_max_def split: option.splits)
  moreover have "s = ''('' @ s1" "s2 = ''-width:'' @ s3"
    using a c by (simp_all only: strip_literal_Some_iff)
  ultimately have s: "s = (''(min-width:'' @ u @ '')'') @ r \<or> s = (''(max-width:'' @ u @ '')'') @ r"
    using u(1,2) by auto
  have "c = ''(min-width:'' @ u @ '')'' \<or> c = ''(max-width:'' @ u @ '')''"
    using s regex_matched_prefix [OF assms] by auto
  then show ?thesis
    using width_clause_min [OF u(3,4)] width_clause_max [OF u(3,4)] by auto
qed

lemma regex_None_prefix:
  "VALID_MEDIA_QUERY_REGEX (s @ t) = None \<Longrightarrow> VALID_MEDIA_QUERY_REGEX s = None"
proof (cases "VALID_MEDIA_QUERY_REGEX s")
  case None
  then show ?thesis .
next
  case (Some m)
  obtain c r where "m = (c, r)" by (cases m)
  with Some have "VALID_MEDIA_QUERY_REGEX (s @ t) = Some (c, r @ t)"
    by (simp add: regex_Some_ext)
  moreover assume "VALID_MEDIA_QUERY_REGEX (s @ t) = None"
  ultimately show ?thesis by simp
qed

subsection \<open>Rewriting a segmented text\<close>

lemma assemble_Nil: "assemble [] rest = rest"
  by (simp add: assemble_def)

lemma assemble_Cons:
  "assemble ((plain, clause) # segments) rest = plain @ clause @ assemble segments rest"
  by (simp add: assemble_def)

lemma segmented_Nil: "segmented [] rest \<longleftrightarrow> \<not> regex_matches_somewhere rest"
  by (simp add: segmented_def)

lemma segmented_Cons:
  "segmented ((plain, clause) # segments) rest \<longleftrightarrow>
     \<not> regex_matches_somewhere plain \<and> is_width_clause clause \<and> segmented segments rest"
  by (auto simp: segmented_def)

lemma replace_segments:
  "segmented segments rest \<Longrightarrow>
   replaceMediaQueryWithWidthEvaluation m (assemble segments rest) w =
   assemble
     (map (\<lambda>(plain, clause).
        (plain, if m clause w then ENABLED_MEDIA_QUERY else DISABLED_MEDIA_QUERY)) segments)
     rest"
proof (induction segments)
  case Nil
  then show ?case by (simp add: assemble_Nil segmented_Nil replace_clause_free)
next
  case (Cons seg segments)
  obtain plain clause where seg: "seg = (plain, clause)" by (cases seg)
  from Cons.prems have p: "\<not> regex_matches_somewhere plain" and c: "is_width_clause clause"
    and more: "segmented segments rest"
    unfolding seg segmented_Cons by blast+
  show ?case
    unfolding seg by (simp add: assemble_Cons replace_step [OF p c] Cons.IH [OF more])
qed

lemma text_has_segments:
  "\<exists>segments rest. ruleText = assemble segments rest \<and> segmented segments rest"
proof (induction "length ruleText" arbitrary: ruleText rule: less_induct)
  case less
  show ?case
  proof (cases ruleText)
    case Nil
    have "ruleText = assemble [] []" "segmented [] []"
      by (simp_all add: Nil assemble_Nil segmented_Nil)
    then show ?thesis by blast
  next
    case (Cons c cs)
    show ?thesis
    proof (cases "VALID_MEDIA_QUERY_REGEX (c # cs)")
      case (Some m)
      obtain clause r where m: "m = (clause, r)" by (cases m)
      have mm: "VALID_MEDIA_QUERY_REGEX ruleText = Some (clause, r)"
        using Some m Cons by simp
      have len: "length r < length ruleText"
        using mm by (rule VALID_MEDIA_QUERY_REGEX_shorter)
      have split: "ruleText = clause @ r"
        using mm by (rule regex_matched_prefix)
      have cl: "is_width_clause clause"
        using mm by (rule regex_match_is_clause)
      from less [OF len] obtain segments rest where
        r: "r = assemble segments rest" and ok: "segmented segments rest"
        by blast
      have "ruleText = assemble (([], clause) # segments) rest"
        unfolding assemble_Cons using split r by simp
      moreover have "segmented (([], clause) # segments) rest"
        unfolding segmented_Cons using ok cl by simp
      ultimately show ?thesis by blast
    next
      case None
      have "length cs < length ruleText" by (simp add: Cons)
      from less [OF this] obtain segments rest where
        r: "cs = assemble segments rest" and ok: "segmented segments rest"
        by blast
      show ?thesis
      proof (cases segments)
        case Nil
        have "ruleText = assemble [] (c # rest)"
          unfolding assemble_Nil using r Cons Nil by (simp add: assemble_Nil)
        moreover have "VALID_MEDIA_QUERY_REGEX (c # rest) = None"
          using None r Nil by (simp add: assemble_Nil)
        then have "segmented [] (c # rest)"
          unfolding segmented_Nil clause_free_Cons using ok Nil by (simp add: segmented_Nil)
        ultimately show ?thesis by blast
      next
        case (Cons seg segments')
        obtain plain clause where seg: "seg = (plain, clause)" by (cases seg)
        have cs: "cs = plain @ clause @ assemble segments' rest"
          unfolding r Cons seg assemble_Cons ..
        have "VALID_MEDIA_QUERY_REGEX ((c # plain) @ clause @ assemble segments' rest) = None"
          using None unfolding cs by simp
        then have "VALID_MEDIA_QUERY_REGEX (c # plain) = None"
          by (rule regex_None_prefix)
        moreover have "\<not> regex_matches_somewhere plain" "is_width_clause clause"
          "segmented segments' rest"
          using ok unfolding Cons seg segmented_Cons by blast+
        ultimately have "segmented ((c # plain, clause) # segments') rest"
          unfolding segmented_Cons clause_free_Cons by blast
        moreover have "ruleText = assemble ((c # plain, clause) # segments') rest"
          unfolding assemble_Cons using cs \<open>ruleText = c # cs\<close> by simp
        ultimately show ?thesis by blast
      qed
    qed
  qed
qed

subsection \<open>The modelled matching utility\<close>

lemma decimal_digits_plain:
  "decimal_digits acc ds = Some v \<Longrightarrow> CHR ''('' \<notin> set ds \<and> CHR '')'' \<notin> set ds"
  by (induction ds arbitrary: acc) (auto simp: digit_value_def split: option.splits if_splits)

lemma px_length_digits:
  "ds \<noteq> [] \<Longrightarrow> px_length (ds @ ''px)'') = decimal_digits 0 ds"
  by (simp add: px_length_def)

lemma css_match_min:
  "ds \<noteq> [] \<Longrightarrow> decimal_digits 0 ds = Some v \<Longrightarrow>
   css_match (''(min-width:'' @ ds @ ''px)'') w \<longleftrightarrow> int v \<le> w"
  using px_length_digits [of ds] by (simp add: css_match_def)

lemma css_match_max:
  "ds \<noteq> [] \<Longrightarrow> decimal_digits 0 ds = Some v \<Longrightarrow>
   css_match (''(max-width:'' @ ds @ ''px)'') w \<longleftrightarrow> w \<le> int v"
  using px_length_digits [of ds] by (simp add: css_match_def)

subsection \<open>Replacing a rule, saving an original\<close>

lemma replaceRule_eq:
  "replaceRule parseRule sh t i =
     (if i < length (cssRules sh) then
        (case parseRule t of
           None \<Rightarrow> Inl SyntaxError
         | Some r \<Rightarrow> Inr (sh\<lparr>cssRules := (cssRules sh)[i := r]\<rparr>))
      else Inl IndexSizeError)"
proof (cases "i < length (cssRules sh)")
  case False
  then show ?thesis by (simp add: replaceRule_def deleteRule_def)
next
  case True
  have "take i (cssRules sh) @ r # drop i (take i (cssRules sh) @ drop (Suc i) (cssRules sh))
        = (cssRules sh)[i := r]" for r
    using True by (simp add: upd_conv_take_nth_drop min_def)
  moreover have "\<not> length (cssRules sh) - Suc 0 < i"
    using True by arith
  ultimately show ?thesis
    using True by (simp add: replaceRule_def deleteRule_def insertRule_def min_def split: option.splits)
qed
lemma replaceRule_Inr:
  "replaceRule parseRule sh t i = Inr sh' \<longleftrightarrow>
     i < length (cssRules sh) \<and>
     (\<exists>r. parseRule t = Some r \<and> sh' = sh\<lparr>cssRules := (cssRules sh)[i := r]\<rparr>)"
  by (auto simp: replaceRule_eq split: option.splits)

lemma js_get_js_set: "js_get (js_set xs i v) j = (if j = i then Some v else js_get xs j)"
  by (auto simp: js_get_def js_set_def nth_append)

lemma js_get_Nil: "js_get [] j = None"
  by (simp add: js_get_def)

lemma savedOriginal_saveOriginal:
  "savedOriginal (saveOriginal orig s i t) s' j =
     (if s' = s \<and> j = i then Some t else savedOriginal orig s' j)"
  by (simp add: savedOriginal_def saveOriginal_def js_get_js_set js_get_Nil Let_def split: option.splits)

lemma length_js_set: "length (js_set xs i v) = max (length xs) (Suc i)"
  by (auto simp: js_set_def)

lemma js_get_Cons: "js_get (e # es) j = (if j = 0 then e else js_get es (j - 1))"
  by (cases j) (auto simp: js_get_def)

lemma savedOriginal_Nil: "savedOriginal [] n j = None"
  by (simp add: savedOriginal_def js_get_Nil)

lemma savedOriginal_Cons:
  "savedOriginal (c # cs) n j =
     (if n = 0 then (case c of None \<Rightarrow> None | Some coll \<Rightarrow> js_get coll j)
      else savedOriginal cs (n - 1) j)"
  by (simp add: savedOriginal_def js_get_Cons)

subsection \<open>The scan of one sheet\<close>

lemma scanRules_skip:
  assumes "i < length (cssRules sh)"
    and "\<not> (relevantAfter b (cssRules sh ! i) \<and> isReplaceableMediaRule (cssRules sh ! i))"
  shows "scanRules m p w s i b sh orig =
    scanRules m p w s (Suc i) (relevantAfter b (cssRules sh ! i)) sh orig"
  using assms
  by (subst scanRules.simps) (auto simp: relevantAfter_def Let_def)

lemma scanRules_replace:
  assumes "i < length (cssRules sh)"
    and "relevantAfter b (cssRules sh ! i)" and "isReplaceableMediaRule (cssRules sh ! i)"
  shows "scanRules m p w s i b sh orig =
    (case replaceRule p sh
            (replaceMediaQueryWithWidthEvaluation m (cssText (cssRules sh ! i)) w) i of
       Inl e \<Rightarrow> Inl e
     | Inr sh' \<Rightarrow>
         scanRules m p w s (Suc i) True sh' (saveOriginal orig s i (cssText (cssRules sh ! i))))"
  using assms
  by (subst scanRules.simps)
     (auto simp: relevantAfter_def Let_def cong del: sum.case_cong_weak)

lemma scanRules_done:
  "\<not> i < length (cssRules sh) \<Longrightarrow> scanRules m p w s i b sh orig = Inr (sh, orig)"
  by (subst scanRules.simps) simp

lemma scanRules_outcome:
  assumes "scanRules m p w s i b sh orig = Inr (sh', orig')"
    and "length (cssRules sh) = length rs0"
    and "\<forall>j. i \<le> j \<longrightarrow> j < length rs0 \<longrightarrow> cssRules sh ! j = rs0 ! j"
    and "b = relevantSectionBefore rs0 i"
  shows "href sh' = href sh \<and> length (cssRules sh') = length rs0
    \<and> (\<forall>j < length rs0.
         (if i \<le> j \<and> isRewritten rs0 j
          then p (replaceMediaQueryWithWidthEvaluation m (cssText (rs0 ! j)) w)
                 = Some (cssRules sh' ! j)
          else cssRules sh' ! j = cssRules sh ! j))
    \<and> (\<forall>s' j. savedOriginal orig' s' j =
         (if s' = s \<and> i \<le> j \<and> isRewritten rs0 j then Some (cssText (rs0 ! j))
          else savedOriginal orig s' j))"
  using assms
proof (induction "length rs0 - i" arbitrary: i b sh orig)
  case 0
  then have "\<not> i < length (cssRules sh)" by simp
  with 0 have "sh' = sh" "orig' = orig" by (simp_all add: scanRules_done)
  moreover have norew: "\<And>j. (i \<le> j \<and> isRewritten rs0 j) = False"
    using 0 by (simp add: isRewritten_def)
  ultimately show ?case using 0(3) by (simp add: norew)
next
  case (Suc n)
  then have i: "i < length (cssRules sh)" "i < length rs0" by simp_all
  define r where "r = rs0 ! i"
  have r: "cssRules sh ! i = r" using Suc.prems(3) i by (simp add: r_def)
  define b' where "b' = relevantAfter b r"
  have b': "b' = relevantSectionBefore rs0 (Suc i)"
    by (simp add: b'_def r_def Suc.prems(4))
  have rew: "isRewritten rs0 i \<longleftrightarrow> b' \<and> isReplaceableMediaRule r"
    using i by (simp add: isRewritten_def b' r_def)
  have n: "n = length rs0 - Suc i" using Suc.hyps(2) by simp
  show ?case
  proof (cases "b' \<and> isReplaceableMediaRule r")
    case False
    then have "\<not> (relevantAfter b (cssRules sh ! i) \<and> isReplaceableMediaRule (cssRules sh ! i))"
      by (simp add: r b'_def)
    from scanRules_skip [OF i(1) this, of m p w s orig]
    have run: "scanRules m p w s (Suc i) b' sh orig = Inr (sh', orig')"
      using Suc.prems(1) by (simp add: r b'_def)
    have keep: "\<forall>j. Suc i \<le> j \<longrightarrow> j < length rs0 \<longrightarrow> cssRules sh ! j = rs0 ! j"
      using Suc.prems(3) by simp
    note IH = Suc.hyps(1) [OF n run Suc.prems(2) keep b']
    have "\<not> isRewritten rs0 i" using False rew by simp
    then have eq: "\<And>j. (i \<le> j \<and> isRewritten rs0 j) = (Suc i \<le> j \<and> isRewritten rs0 j)"
    proof -
      fix j show "(i \<le> j \<and> isRewritten rs0 j) = (Suc i \<le> j \<and> isRewritten rs0 j)"
        using \<open>\<not> isRewritten rs0 i\<close> by (cases "j = i") auto
    qed
    show ?thesis unfolding eq by (rule IH)
  next
    case True
    then have t: "relevantAfter b (cssRules sh ! i)" "isReplaceableMediaRule (cssRules sh ! i)"
      by (simp_all add: r b'_def)
    have bt: "b' = True" using True by simp
    have "(case replaceRule p sh (replaceMediaQueryWithWidthEvaluation m (cssText r) w) i of
             Inl e \<Rightarrow> Inl e
           | Inr sh1 \<Rightarrow>
               scanRules m p w s (Suc i) b' sh1 (saveOriginal orig s i (cssText r)))
          = Inr (sh', orig')"
      using scanRules_replace [OF i(1) t, of m p w s orig] Suc.prems(1)
      unfolding r bt by simp
    then obtain sh1 where
      rep: "replaceRule p sh (replaceMediaQueryWithWidthEvaluation m (cssText r) w) i = Inr sh1"
      and run: "scanRules m p w s (Suc i) b' sh1 (saveOriginal orig s i (cssText r))
                  = Inr (sh', orig')"
      by (cases "replaceRule p sh (replaceMediaQueryWithWidthEvaluation m (cssText r) w) i")
         simp_all
    from rep obtain r' where
      r': "p (replaceMediaQueryWithWidthEvaluation m (cssText r) w) = Some r'"
      and sh1: "sh1 = sh\<lparr>cssRules := (cssRules sh)[i := r']\<rparr>"
      unfolding replaceRule_Inr by blast
    have len: "length (cssRules sh1) = length rs0"
      using sh1 Suc.prems(2) by simp
    have keep: "\<forall>j. Suc i \<le> j \<longrightarrow> j < length rs0 \<longrightarrow> cssRules sh1 ! j = rs0 ! j"
      using Suc.prems(3) sh1 by simp
    note IH = Suc.hyps(1) [OF n run len keep b']
    note IH1 = IH [THEN conjunct1]
    note IH2 = IH [THEN conjunct2, THEN conjunct1]
    note IH3 = IH [THEN conjunct2, THEN conjunct2, THEN conjunct1, rule_format]
    note IH4 = IH [THEN conjunct2, THEN conjunct2, THEN conjunct2, rule_format]
    have at_i: "cssRules sh' ! i = r'"
      using IH3 [OF i(2)] i(1) sh1 by simp
    have isr: "isRewritten rs0 i" using True rew by simp
    have c1: "href sh' = href sh"
      using IH1 sh1 by simp
    have c3: "\<forall>j < length rs0.
         (if i \<le> j \<and> isRewritten rs0 j
          then p (replaceMediaQueryWithWidthEvaluation m (cssText (rs0 ! j)) w)
                 = Some (cssRules sh' ! j)
          else cssRules sh' ! j = cssRules sh ! j)"
    proof (intro allI impI)
      fix j assume j: "j < length rs0"
      consider "j = i" | "Suc i \<le> j" | "j < i" by linarith
      then show "if i \<le> j \<and> isRewritten rs0 j
          then p (replaceMediaQueryWithWidthEvaluation m (cssText (rs0 ! j)) w)
                 = Some (cssRules sh' ! j)
          else cssRules sh' ! j = cssRules sh ! j"
      proof cases
        case 1
        then show ?thesis using isr r' at_i by (simp add: r_def)
      next
        case 2
        then have "i \<le> j" "j \<noteq> i" by simp_all
        then show ?thesis using IH3 [OF j] 2 sh1 by simp
      next
        case 3
        then have "\<not> i \<le> j" "\<not> Suc i \<le> j" "j \<noteq> i" by simp_all
        then show ?thesis using IH3 [OF j] sh1 by simp
      qed
    qed
    have c4: "\<forall>s' j. savedOriginal orig' s' j =
         (if s' = s \<and> i \<le> j \<and> isRewritten rs0 j then Some (cssText (rs0 ! j))
          else savedOriginal orig s' j)"
    proof (intro allI)
      fix s' j
      show "savedOriginal orig' s' j =
         (if s' = s \<and> i \<le> j \<and> isRewritten rs0 j then Some (cssText (rs0 ! j))
          else savedOriginal orig s' j)"
      proof (cases "j = i")
        case True
        then show ?thesis
          using IH4 [of s' j] isr by (simp add: savedOriginal_saveOriginal r_def)
      next
        case False
        then have "(i \<le> j) = (Suc i \<le> j)" by auto
        then show ?thesis
          using IH4 [of s' j] False by (simp add: savedOriginal_saveOriginal)
      qed
    qed
    show ?thesis by (intro conjI c1 IH2 c3 c4)
  qed
qed

lemma scanRules_total:
  assumes "length (cssRules sh) = length rs0"
    and "\<forall>j. i \<le> j \<longrightarrow> j < length rs0 \<longrightarrow> cssRules sh ! j = rs0 ! j"
    and "b = relevantSectionBefore rs0 i"
  shows "(\<exists>sh' orig'. scanRules m p w s i b sh orig = Inr (sh', orig')) \<or>
    (scanRules m p w s i b sh orig = Inl SyntaxError \<and>
     (\<exists>j. i \<le> j \<and> isRewritten rs0 j \<and>
          p (replaceMediaQueryWithWidthEvaluation m (cssText (rs0 ! j)) w) = None))"
  using assms
proof (induction "length rs0 - i" arbitrary: i b sh orig)
  case 0
  then have "\<not> i < length (cssRules sh)" by simp
  then show ?case by (simp add: scanRules_done)
next
  case (Suc n)
  then have i: "i < length (cssRules sh)" "i < length rs0" by simp_all
  define r where "r = rs0 ! i"
  have r: "cssRules sh ! i = r" using Suc.prems(2) i by (simp add: r_def)
  define b' where "b' = relevantAfter b r"
  have b': "b' = relevantSectionBefore rs0 (Suc i)"
    by (simp add: b'_def r_def Suc.prems(3))
  have rew: "isRewritten rs0 i \<longleftrightarrow> b' \<and> isReplaceableMediaRule r"
    using i by (simp add: isRewritten_def b' r_def)
  have n: "n = length rs0 - Suc i" using Suc.hyps(2) by simp
  have later: "\<And>j. Suc i \<le> j \<Longrightarrow> i \<le> j" by simp
  show ?case
  proof (cases "b' \<and> isReplaceableMediaRule r")
    case False
    then have "\<not> (relevantAfter b (cssRules sh ! i) \<and> isReplaceableMediaRule (cssRules sh ! i))"
      by (simp add: r b'_def)
    from scanRules_skip [OF i(1) this, of m p w s orig]
    have run: "scanRules m p w s i b sh orig = scanRules m p w s (Suc i) b' sh orig"
      by (simp add: r b'_def)
    have keep: "\<forall>j. Suc i \<le> j \<longrightarrow> j < length rs0 \<longrightarrow> cssRules sh ! j = rs0 ! j"
      using Suc.prems(2) by simp
    note IH = Suc.hyps(1) [OF n Suc.prems(1) keep b', of orig]
    show ?thesis unfolding run using IH later by blast
  next
    case True
    then have t: "relevantAfter b (cssRules sh ! i)" "isReplaceableMediaRule (cssRules sh ! i)"
      by (simp_all add: r b'_def)
    have bt: "b' = True" using True by simp
    have isr: "isRewritten rs0 i" using True rew by simp
    have run: "scanRules m p w s i b sh orig =
      (case replaceRule p sh (replaceMediaQueryWithWidthEvaluation m (cssText r) w) i of
             Inl e \<Rightarrow> Inl e
           | Inr sh1 \<Rightarrow>
               scanRules m p w s (Suc i) b' sh1 (saveOriginal orig s i (cssText r)))"
      using scanRules_replace [OF i(1) t, of m p w s orig]
      unfolding r bt by simp
    show ?thesis
    proof (cases "p (replaceMediaQueryWithWidthEvaluation m (cssText r) w)")
      case None
      then have "scanRules m p w s i b sh orig = Inl SyntaxError"
        unfolding run using i by (simp add: replaceRule_eq)
      moreover have "i \<le> i \<and> isRewritten rs0 i \<and>
          p (replaceMediaQueryWithWidthEvaluation m (cssText (rs0 ! i)) w) = None"
        using isr None by (simp add: r_def)
      ultimately show ?thesis by blast
    next
      case (Some r')
      define sh1 where "sh1 = sh\<lparr>cssRules := (cssRules sh)[i := r']\<rparr>"
      have run': "scanRules m p w s i b sh orig =
          scanRules m p w s (Suc i) b' sh1 (saveOriginal orig s i (cssText r))"
        unfolding run using i Some by (simp add: replaceRule_eq sh1_def)
      have len: "length (cssRules sh1) = length rs0"
        using sh1_def Suc.prems(1) by simp
      have keep: "\<forall>j. Suc i \<le> j \<longrightarrow> j < length rs0 \<longrightarrow> cssRules sh1 ! j = rs0 ! j"
        using Suc.prems(2) sh1_def by simp
      note IH = Suc.hyps(1) [OF n len keep b', of "saveOriginal orig s i (cssText r)"]
      show ?thesis unfolding run' using IH later by blast
    qed
  qed
qed

lemma scanRules_sheet:
  assumes "scanRules m p w s 0 False sh orig = Inr (sh', orig')"
  shows "rewrittenSheet m p w sh sh'"
    and "\<And>s' j. savedOriginal orig' s' j =
         (if s' = s \<and> isRewritten (cssRules sh) j then Some (cssText (cssRules sh ! j))
          else savedOriginal orig s' j)"
proof -
  note o = scanRules_outcome [OF assms, of "cssRules sh"]
  have o': "href sh' = href sh \<and> length (cssRules sh') = length (cssRules sh)
    \<and> (\<forall>j < length (cssRules sh).
         (if 0 \<le> j \<and> isRewritten (cssRules sh) j
          then p (replaceMediaQueryWithWidthEvaluation m (cssText (cssRules sh ! j)) w)
                 = Some (cssRules sh' ! j)
          else cssRules sh' ! j = cssRules sh ! j))
    \<and> (\<forall>s' j. savedOriginal orig' s' j =
         (if s' = s \<and> 0 \<le> j \<and> isRewritten (cssRules sh) j then Some (cssText (cssRules sh ! j))
          else savedOriginal orig s' j))"
    by (rule o) simp_all
  show "rewrittenSheet m p w sh sh'"
    unfolding rewrittenSheet_def using o' by simp
  show "\<And>s' j. savedOriginal orig' s' j =
         (if s' = s \<and> isRewritten (cssRules sh) j then Some (cssText (cssRules sh ! j))
          else savedOriginal orig s' j)"
    using o' by simp
qed

lemma scanRules_nothing:
  assumes "length (cssRules sh) = length rs0"
    and "\<forall>j. i \<le> j \<longrightarrow> j < length rs0 \<longrightarrow> cssRules sh ! j = rs0 ! j"
    and "b = relevantSectionBefore rs0 i"
    and "\<forall>j. i \<le> j \<longrightarrow> \<not> isRewritten rs0 j"
  shows "scanRules m p w s i b sh orig = Inr (sh, orig)"
  using assms
proof (induction "length rs0 - i" arbitrary: i b)
  case 0
  then have "\<not> i < length (cssRules sh)" by simp
  then show ?case by (simp add: scanRules_done)
next
  case (Suc n)
  then have i: "i < length (cssRules sh)" "i < length rs0" by simp_all
  have r: "cssRules sh ! i = rs0 ! i" using Suc.prems(2) i by simp
  have "\<not> isRewritten rs0 i" using Suc.prems(4) by simp
  then have no: "\<not> (relevantAfter b (cssRules sh ! i) \<and> isReplaceableMediaRule (cssRules sh ! i))"
    using i by (simp add: isRewritten_def r Suc.prems(3))
  have n: "n = length rs0 - Suc i" using Suc.hyps(2) by simp
  have keep: "\<forall>j. Suc i \<le> j \<longrightarrow> j < length rs0 \<longrightarrow> cssRules sh ! j = rs0 ! j"
    using Suc.prems(2) by simp
  have b': "relevantAfter b (cssRules sh ! i) = relevantSectionBefore rs0 (Suc i)"
    by (simp add: r Suc.prems(3))
  have later: "\<forall>j. Suc i \<le> j \<longrightarrow> \<not> isRewritten rs0 j" using Suc.prems(4) by simp
  show ?case
    unfolding scanRules_skip [OF i(1) no]
    by (rule Suc.hyps(1) [OF n Suc.prems(1) keep b' later])
qed

subsection \<open>The region flag and the markers\<close>

lemma relevantAfter_markers:
  "relevantAfter b r = ((b \<or> hasStartMarker r) \<and> \<not> hasEndMarker r)"
  by (simp add: relevantAfter_def hasStartMarker_def hasEndMarker_def)

lemma relevantSectionBefore_Suc:
  "relevantSectionBefore rs (Suc j) =
     ((relevantSectionBefore rs j \<or> hasStartMarker (rs ! j)) \<and> \<not> hasEndMarker (rs ! j))"
  by (simp add: relevantAfter_markers)

lemma closed_before_start:
  "(\<forall>i \<le> j. \<not> hasStartMarker (rs ! i)) \<Longrightarrow> \<not> relevantSectionBefore rs (Suc j)"
proof (induction j)
  case 0
  then show ?case by (simp add: relevantAfter_markers)
next
  case (Suc j)
  have "\<forall>i \<le> j. \<not> hasStartMarker (rs ! i)" using Suc.prems by simp
  then have "\<not> relevantSectionBefore rs (Suc j)" by (rule Suc.IH)
  moreover have "\<not> hasStartMarker (rs ! Suc j)" using Suc.prems by simp
  ultimately show ?case
    unfolding relevantSectionBefore_Suc [of rs "Suc j"] by blast
qed

lemma closed_after_end:
  "hasEndMarker (rs ! e) \<Longrightarrow> e \<le> j \<Longrightarrow>
   (\<forall>i. e < i \<and> i \<le> j \<longrightarrow> \<not> hasStartMarker (rs ! i)) \<Longrightarrow>
   \<not> relevantSectionBefore rs (Suc j)"
proof (induction j)
  case 0
  then show ?case by (simp add: relevantAfter_markers)
next
  case (Suc j)
  show ?case
  proof (cases "e = Suc j")
    case True
    then show ?thesis
      unfolding relevantSectionBefore_Suc [of rs "Suc j"] using Suc.prems(1) by blast
  next
    case False
    then have "e \<le> j" using Suc.prems(2) by simp
    moreover have "\<forall>i. e < i \<and> i \<le> j \<longrightarrow> \<not> hasStartMarker (rs ! i)"
      using Suc.prems(3) by simp
    ultimately have "\<not> relevantSectionBefore rs (Suc j)"
      using Suc.IH Suc.prems(1) by blast
    moreover have "\<not> hasStartMarker (rs ! Suc j)"
      using Suc.prems(2,3) False by simp
    ultimately show ?thesis
      unfolding relevantSectionBefore_Suc [of rs "Suc j"] by blast
  qed
qed

lemma open_after_start:
  "hasStartMarker (rs ! s0) \<Longrightarrow> s0 \<le> j \<Longrightarrow>
   (\<forall>i. s0 \<le> i \<and> i \<le> j \<longrightarrow> \<not> hasEndMarker (rs ! i)) \<Longrightarrow>
   relevantSectionBefore rs (Suc j)"
proof (induction j)
  case 0
  then show ?case by (simp add: relevantAfter_markers)
next
  case (Suc j)
  have noend: "\<not> hasEndMarker (rs ! Suc j)" using Suc.prems(2,3) by simp
  show ?case
  proof (cases "s0 = Suc j")
    case True
    then show ?thesis
      unfolding relevantSectionBefore_Suc [of rs "Suc j"] using Suc.prems(1) noend by blast
  next
    case False
    then have "s0 \<le> j" using Suc.prems(2) by simp
    moreover have "\<forall>i. s0 \<le> i \<and> i \<le> j \<longrightarrow> \<not> hasEndMarker (rs ! i)"
      using Suc.prems(3) by simp
    ultimately have "relevantSectionBefore rs (Suc j)"
      using Suc.IH Suc.prems(1) by blast
    then show ?thesis
      unfolding relevantSectionBefore_Suc [of rs "Suc j"] using noend by blast
  qed
qed

subsection \<open>The scan of the document\<close>

lemma scanStyleSheets_outcome:
  assumes "scanStyleSheets m p w refs s doc orig = Inr (doc', orig')"
    and "distinct refs" and "\<forall>k \<in> set refs. k < length doc"
  shows "length doc' = length doc
    \<and> (\<forall>k < length doc. k \<notin> set refs \<longrightarrow> doc' ! k = doc ! k)
    \<and> (\<forall>n < length refs. rewrittenSheet m p w (doc ! (refs ! n)) (doc' ! (refs ! n)))
    \<and> (\<forall>s' j. savedOriginal orig' s' j =
         (if s \<le> s' \<and> s' < s + length refs \<and>
             isRewritten (cssRules (doc ! (refs ! (s' - s)))) j
          then Some (cssText (cssRules (doc ! (refs ! (s' - s))) ! j))
          else savedOriginal orig s' j))"
  using assms
proof (induction refs arbitrary: s doc orig)
  case Nil
  then show ?case by auto
next
  case (Cons ref refs)
  have ref: "ref < length doc" "ref \<notin> set refs" "distinct refs"
    using Cons.prems by simp_all
  obtain sh1 orig1 where
    one: "scanRules m p w s 0 False (doc ! ref) orig = Inr (sh1, orig1)" and
    run: "scanStyleSheets m p w refs (Suc s) (doc[ref := sh1]) orig1 = Inr (doc', orig')"
    using Cons.prems(1) ref(1)
    by (cases "scanRules m p w s 0 False (doc ! ref) orig") auto
  have inr: "\<forall>k \<in> set refs. k < length (doc[ref := sh1])"
    using Cons.prems(3) by simp
  note IH = Cons.IH [OF run ref(3) inr]
  note IH1 = IH [THEN conjunct1]
  note IH2 = IH [THEN conjunct2, THEN conjunct1, rule_format]
  note IH3 = IH [THEN conjunct2, THEN conjunct2, THEN conjunct1, rule_format]
  note IH4 = IH [THEN conjunct2, THEN conjunct2, THEN conjunct2, rule_format]
  note S1 = scanRules_sheet(1) [OF one]
  note S2 = scanRules_sheet(2) [OF one]
  have other: "\<And>n. n < length refs \<Longrightarrow> doc[ref := sh1] ! (refs ! n) = doc ! (refs ! n)"
    using ref(2) by (metis nth_list_update_neq nth_mem)
  have c1: "length doc' = length doc" using IH1 by simp
  have at_ref: "doc' ! ref = sh1"
    using IH2 [of ref] ref by simp
  have c2: "\<forall>k < length doc. k \<notin> set (ref # refs) \<longrightarrow> doc' ! k = doc ! k"
    using IH2 by simp
  have c3: "\<forall>n < length (ref # refs).
      rewrittenSheet m p w (doc ! ((ref # refs) ! n)) (doc' ! ((ref # refs) ! n))"
  proof (intro allI impI)
    fix n assume n: "n < length (ref # refs)"
    show "rewrittenSheet m p w (doc ! ((ref # refs) ! n)) (doc' ! ((ref # refs) ! n))"
    proof (cases n)
      case 0
      then show ?thesis using S1 at_ref by simp
    next
      case (Suc n')
      then have "n' < length refs" using n by simp
      then show ?thesis using IH3 [of n'] other [of n'] Suc by simp
    qed
  qed
  have c4: "\<forall>s' j. savedOriginal orig' s' j =
         (if s \<le> s' \<and> s' < s + length (ref # refs) \<and>
             isRewritten (cssRules (doc ! ((ref # refs) ! (s' - s)))) j
          then Some (cssText (cssRules (doc ! ((ref # refs) ! (s' - s))) ! j))
          else savedOriginal orig s' j)"
  proof (intro allI)
    fix s' j
    consider "s' < s" | "s' = s" | "Suc s \<le> s' \<and> s' < Suc s + length refs"
      | "Suc s + length refs \<le> s'" by linarith
    then show "savedOriginal orig' s' j =
         (if s \<le> s' \<and> s' < s + length (ref # refs) \<and>
             isRewritten (cssRules (doc ! ((ref # refs) ! (s' - s)))) j
          then Some (cssText (cssRules (doc ! ((ref # refs) ! (s' - s))) ! j))
          else savedOriginal orig s' j)"
    proof cases
      case 1
      then show ?thesis using IH4 [of s' j] S2 [of s' j] by simp
    next
      case 2
      then show ?thesis using IH4 [of s' j] S2 [of s' j] by simp
    next
      case 3
      then have n: "s' - Suc s < length refs" and e: "s' - s = Suc (s' - Suc s)" by auto
      show ?thesis using 3 IH4 [of s' j] S2 [of s' j] other [OF n] e by simp
    next
      case 4
      then show ?thesis using IH4 [of s' j] S2 [of s' j] by simp
    qed
  qed
  show ?case by (intro conjI c1 c2 c3 c4)
qed

lemma matching_distinct: "distinct (getStyleSheetsThatMatchHostname win)"
  by (simp add: getStyleSheetsThatMatchHostname_def)

lemma matching_member:
  "k \<in> set (getStyleSheetsThatMatchHostname win) \<longleftrightarrow>
     k < length (styleSheets win) \<and>
     (\<exists>h. href (styleSheets win ! k) = Some h \<and> h \<noteq> [] \<and> str_includes h (hostname win))"
  by (auto simp: getStyleSheetsThatMatchHostname_def split: option.splits)

lemma matching_in_range:
  "\<forall>k \<in> set (getStyleSheetsThatMatchHostname win). k < length (styleSheets win)"
  by (simp add: matching_member)

lemma activation_parts:
  assumes "useSimulatedMediaQuery m p win w = Inr (win', matching, orig)"
  shows "matching = getStyleSheetsThatMatchHostname win"
    and "scanStyleSheets m p w matching 0 (styleSheets win) [] = Inr (styleSheets win', orig)"
    and "hostname win' = hostname win"
  using assms
  by (auto simp: useSimulatedMediaQuery_def Let_def split: sum.splits)

lemma activation_outcome:
  assumes "useSimulatedMediaQuery m p win w = Inr (win', matching, orig)"
  shows "length (styleSheets win') = length (styleSheets win)"
    and "\<And>k. k < length (styleSheets win) \<Longrightarrow> k \<notin> set matching \<Longrightarrow>
           styleSheets win' ! k = styleSheets win ! k"
    and "\<And>n. n < length matching \<Longrightarrow>
           rewrittenSheet m p w (styleSheets win ! (matching ! n)) (styleSheets win' ! (matching ! n))"
    and "\<And>n j. savedOriginal orig n j =
           (if n < length matching \<and> isRewritten (cssRules (styleSheets win ! (matching ! n))) j
            then Some (cssText (cssRules (styleSheets win ! (matching ! n)) ! j)) else None)"
proof -
  note parts = activation_parts [OF assms]
  have d: "distinct matching" and r: "\<forall>k \<in> set matching. k < length (styleSheets win)"
    unfolding parts(1) by (rule matching_distinct, rule matching_in_range)
  note o = scanStyleSheets_outcome [OF parts(2) d r]
  show "length (styleSheets win') = length (styleSheets win)"
    using o by blast
  show "\<And>k. k < length (styleSheets win) \<Longrightarrow> k \<notin> set matching \<Longrightarrow>
           styleSheets win' ! k = styleSheets win ! k"
    using o by blast
  show "\<And>n. n < length matching \<Longrightarrow>
           rewrittenSheet m p w (styleSheets win ! (matching ! n)) (styleSheets win' ! (matching ! n))"
    using o by blast
  show "\<And>n j. savedOriginal orig n j =
           (if n < length matching \<and> isRewritten (cssRules (styleSheets win ! (matching ! n))) j
            then Some (cssText (cssRules (styleSheets win ! (matching ! n)) ! j)) else None)"
    using o [THEN conjunct2, THEN conjunct2, THEN conjunct2, rule_format]
    by (simp add: savedOriginal_Nil)
qed

lemma scanStyleSheets_total:
  assumes "distinct refs" and "\<forall>k \<in> set refs. k < length doc"
  shows "(\<exists>doc' orig'. scanStyleSheets m p w refs s doc orig = Inr (doc', orig')) \<or>
    scanStyleSheets m p w refs s doc orig = Inl SyntaxError"
  using assms
proof (induction refs arbitrary: s doc orig)
  case Nil
  then show ?case by simp
next
  case (Cons ref refs)
  have ref: "ref < length doc" "distinct refs" using Cons.prems by simp_all
  from scanRules_total [of "doc ! ref" "cssRules (doc ! ref)" 0 False m p w s orig]
  consider sh1 orig1 where "scanRules m p w s 0 False (doc ! ref) orig = Inr (sh1, orig1)"
    | "scanRules m p w s 0 False (doc ! ref) orig = Inl SyntaxError"
    by auto
  then show ?case
  proof cases
    case 1
    have "\<forall>k \<in> set refs. k < length (doc[ref := sh1])" using Cons.prems(2) by simp
    from Cons.IH [OF ref(2) this, of "Suc s" orig1] show ?thesis
      using 1 ref(1) by simp
  next
    case 2
    then show ?thesis using ref(1) by simp
  qed
qed

lemma activation_total:
  "(\<exists>win' matching orig. useSimulatedMediaQuery m p win w = Inr (win', matching, orig)) \<or>
   useSimulatedMediaQuery m p win w = Inl SyntaxError"
proof -
  have "(\<exists>doc' orig'. scanStyleSheets m p w (getStyleSheetsThatMatchHostname win) 0
            (styleSheets win) [] = Inr (doc', orig')) \<or>
    scanStyleSheets m p w (getStyleSheetsThatMatchHostname win) 0 (styleSheets win) []
      = Inl SyntaxError"
    by (rule scanStyleSheets_total [OF matching_distinct matching_in_range])
  then show ?thesis
    by (auto simp: useSimulatedMediaQuery_def Let_def)
qed

lemma scanStyleSheets_nothing:
  assumes "\<forall>ref \<in> set refs. ref < length doc \<and> (\<forall>j. \<not> isRewritten (cssRules (doc ! ref)) j)"
  shows "scanStyleSheets m p w refs s doc orig = Inr (doc, orig)"
  using assms
proof (induction refs arbitrary: s)
  case Nil
  then show ?case by simp
next
  case (Cons ref refs)
  have "scanRules m p w s 0 False (doc ! ref) orig = Inr (doc ! ref, orig)"
    by (rule scanRules_nothing [where ?rs0.0 = "cssRules (doc ! ref)"]) (use Cons.prems in simp_all)
  then show ?case using Cons by simp
qed

subsection \<open>The restoring loops\<close>

lemma replaceRuleOf_Inr:
  "replaceRuleOf p matching n t j doc = Inr doc' \<longleftrightarrow>
     n < length matching \<and> matching ! n < length doc \<and>
     j < length (cssRules (doc ! (matching ! n))) \<and>
     (\<exists>r. p t = Some r \<and>
        doc' = doc[matching ! n :=
                 (doc ! (matching ! n))\<lparr>cssRules := (cssRules (doc ! (matching ! n)))[j := r]\<rparr>])"
  by (auto simp: replaceRuleOf_def replaceRule_eq split: option.splits)

lemma restoredRule_simps:
  "restoredRule p None r = r"
  "restoredRule p (Some []) r = r"
  "t \<noteq> [] \<Longrightarrow> p t = Some r' \<Longrightarrow> restoredRule p (Some t) r = r'"
  by (simp_all add: restoredRule_def)

lemma restoreRules_outcome:
  assumes "\<forall>i < length coll. \<forall>t. coll ! i = Some t \<longrightarrow> t \<noteq> [] \<longrightarrow>
     (n < length matching \<and> matching ! n < length doc \<and>
      ri + i < length (cssRules (doc ! (matching ! n))) \<and> p t \<noteq> None)"
  shows "\<exists>doc'. restoreRules p matching n coll ri doc = Inr doc' \<and>
     length doc' = length doc \<and>
     (\<forall>k < length doc. href (doc' ! k) = href (doc ! k) \<and>
        length (cssRules (doc' ! k)) = length (cssRules (doc ! k)) \<and>
        (\<forall>j < length (cssRules (doc ! k)).
           cssRules (doc' ! k) ! j =
             restoredRule p
               (if n < length matching \<and> matching ! n = k \<and> ri \<le> j
                then js_get coll (j - ri) else None)
               (cssRules (doc ! k) ! j)))"
  using assms
proof (induction coll arbitrary: ri doc)
  case Nil
  then show ?case by (simp add: js_get_Nil restoredRule_simps)
next
  case (Cons e es)
  have shift: "\<forall>i < length es. \<forall>t. es ! i = Some t \<longrightarrow> t \<noteq> [] \<longrightarrow>
     (n < length matching \<and> matching ! n < length doc \<and>
      Suc ri + i < length (cssRules (doc ! (matching ! n))) \<and> p t \<noteq> None)"
  proof (intro allI impI)
    fix i t assume "i < length es" "es ! i = Some t" "t \<noteq> []"
    then show "n < length matching \<and> matching ! n < length doc \<and>
      Suc ri + i < length (cssRules (doc ! (matching ! n))) \<and> p t \<noteq> None"
      using Cons.prems [rule_format, of "Suc i" t] by simp
  qed
  have get: "\<And>j. Suc ri \<le> j \<Longrightarrow> js_get (e # es) (j - ri) = js_get es (j - Suc ri)"
    by (auto simp: js_get_Cons)
  show ?case
  proof (cases "\<exists>t. e = Some t \<and> t \<noteq> []")
    case False
    then have run: "restoreRules p matching n (e # es) ri doc =
        restoreRules p matching n es (Suc ri) doc"
      by (cases e) auto
    have e: "restoredRule p e = (\<lambda>r. r)"
      using False by (cases e) (auto simp: restoredRule_def)
    from Cons.IH [OF shift] obtain doc' where
      r: "restoreRules p matching n es (Suc ri) doc = Inr doc'" and
      l: "length doc' = length doc" and
      c: "\<And>k. k < length doc \<Longrightarrow> href (doc' ! k) = href (doc ! k) \<and>
        length (cssRules (doc' ! k)) = length (cssRules (doc ! k)) \<and>
        (\<forall>j < length (cssRules (doc ! k)).
           cssRules (doc' ! k) ! j =
             restoredRule p
               (if n < length matching \<and> matching ! n = k \<and> Suc ri \<le> j
                then js_get es (j - Suc ri) else None)
               (cssRules (doc ! k) ! j))"
      by blast
    have "\<forall>k < length doc. href (doc' ! k) = href (doc ! k) \<and>
        length (cssRules (doc' ! k)) = length (cssRules (doc ! k)) \<and>
        (\<forall>j < length (cssRules (doc ! k)).
           cssRules (doc' ! k) ! j =
             restoredRule p
               (if n < length matching \<and> matching ! n = k \<and> ri \<le> j
                then js_get (e # es) (j - ri) else None)
               (cssRules (doc ! k) ! j))"
    proof (intro allI impI conjI)
      fix k assume k: "k < length doc"
      show "href (doc' ! k) = href (doc ! k)"
        and "length (cssRules (doc' ! k)) = length (cssRules (doc ! k))"
        using c [OF k] by simp_all
      fix j assume j: "j < length (cssRules (doc ! k))"
      show "cssRules (doc' ! k) ! j =
             restoredRule p
               (if n < length matching \<and> matching ! n = k \<and> ri \<le> j
                then js_get (e # es) (j - ri) else None)
               (cssRules (doc ! k) ! j)"
      proof (cases "j = ri")
        case True
        then show ?thesis
          using c [OF k, THEN conjunct2, THEN conjunct2, rule_format, OF j] e
          by (simp add: js_get_Cons restoredRule_simps)
      next
        case ne: False
        then have "(ri \<le> j) = (Suc ri \<le> j)" by auto
        then show ?thesis
          using c [OF k, THEN conjunct2, THEN conjunct2, rule_format, OF j] get [of j]
          by (cases "Suc ri \<le> j") simp_all
      qed
    qed
    with run r l show ?thesis by simp
  next
    case True
    then obtain t where t: "e = Some t" "t \<noteq> []" by blast
    from Cons.prems [rule_format, of 0 t] t have
      pre: "n < length matching" "matching ! n < length doc"
        "ri < length (cssRules (doc ! (matching ! n)))" and "p t \<noteq> None"
      by simp_all
    then obtain r where r: "p t = Some r" by blast
    define k0 where "k0 = matching ! n"
    define doc1 where
      "doc1 = doc[k0 := (doc ! k0)\<lparr>cssRules := (cssRules (doc ! k0))[ri := r]\<rparr>]"
    have step: "replaceRuleOf p matching n t ri doc = Inr doc1"
      unfolding replaceRuleOf_Inr using pre r by (simp add: doc1_def k0_def)
    have run: "restoreRules p matching n (e # es) ri doc =
        restoreRules p matching n es (Suc ri) doc1"
      using t step by simp
    have k0l: "k0 < length doc" using pre(2) by (simp add: k0_def)
    have l1: "length doc1 = length doc" by (simp add: doc1_def)
    have s1: "\<And>k. k < length doc \<Longrightarrow> href (doc1 ! k) = href (doc ! k) \<and>
        length (cssRules (doc1 ! k)) = length (cssRules (doc ! k))"
      using k0l by (simp add: doc1_def nth_list_update)
    have shift1: "\<forall>i < length es. \<forall>t. es ! i = Some t \<longrightarrow> t \<noteq> [] \<longrightarrow>
     (n < length matching \<and> matching ! n < length doc1 \<and>
      Suc ri + i < length (cssRules (doc1 ! (matching ! n))) \<and> p t \<noteq> None)"
      using shift pre(2) s1 [OF pre(2)] l1 by simp
    from Cons.IH [OF shift1] obtain doc' where
      rr: "restoreRules p matching n es (Suc ri) doc1 = Inr doc'" and
      l: "length doc' = length doc1" and
      c: "\<And>k. k < length doc1 \<Longrightarrow> href (doc' ! k) = href (doc1 ! k) \<and>
        length (cssRules (doc' ! k)) = length (cssRules (doc1 ! k)) \<and>
        (\<forall>j < length (cssRules (doc1 ! k)).
           cssRules (doc' ! k) ! j =
             restoredRule p
               (if n < length matching \<and> matching ! n = k \<and> Suc ri \<le> j
                then js_get es (j - Suc ri) else None)
               (cssRules (doc1 ! k) ! j))"
      by blast
    have "\<forall>k < length doc. href (doc' ! k) = href (doc ! k) \<and>
        length (cssRules (doc' ! k)) = length (cssRules (doc ! k)) \<and>
        (\<forall>j < length (cssRules (doc ! k)).
           cssRules (doc' ! k) ! j =
             restoredRule p
               (if n < length matching \<and> matching ! n = k \<and> ri \<le> j
                then js_get (e # es) (j - ri) else None)
               (cssRules (doc ! k) ! j))"
    proof (intro allI impI conjI)
      fix k assume k: "k < length doc"
      then have k1: "k < length doc1" by (simp add: l1)
      show "href (doc' ! k) = href (doc ! k)"
        and "length (cssRules (doc' ! k)) = length (cssRules (doc ! k))"
        using c [OF k1] s1 [OF k] by simp_all
      fix j assume j: "j < length (cssRules (doc ! k))"
      then have j1: "j < length (cssRules (doc1 ! k))" using s1 [OF k] by simp
      note cj = c [OF k1, THEN conjunct2, THEN conjunct2, rule_format, OF j1]
      show "cssRules (doc' ! k) ! j =
             restoredRule p
               (if n < length matching \<and> matching ! n = k \<and> ri \<le> j
                then js_get (e # es) (j - ri) else None)
               (cssRules (doc ! k) ! j)"
      proof (cases "k = k0 \<and> j = ri")
        case True
        then have "cssRules (doc1 ! k) ! j = r"
          using k j by (simp add: doc1_def)
        then show ?thesis
          using cj True pre(1) t r
          by (simp add: js_get_Cons restoredRule_simps k0_def)
      next
        case False
        then have same: "cssRules (doc1 ! k) ! j = cssRules (doc ! k) ! j"
          using k j k0l by (auto simp: doc1_def nth_list_update)
        show ?thesis
        proof (cases "n < length matching \<and> matching ! n = k \<and> Suc ri \<le> j")
          case True
          then show ?thesis using cj same get [of j] by simp
        next
          case f: False
          then have g: "(n < length matching \<and> matching ! n = k \<and> ri \<le> j) = False"
            using False by (auto simp: k0_def)
          have f': "(n < length matching \<and> matching ! n = k \<and> Suc ri \<le> j) = False"
            using f by simp
          show ?thesis using cj same unfolding f' g by (simp add: restoredRule_simps)
        qed
      qed
    qed
    with run rr l l1 show ?thesis by simp
  qed
qed

lemma restoreStyleSheets_outcome:
  assumes "distinct matching"
    and "\<forall>n j t. savedOriginal orig n j = Some t \<longrightarrow> t \<noteq> [] \<longrightarrow>
      (s + n < length matching \<and> matching ! (s + n) < length doc \<and>
       j < length (cssRules (doc ! (matching ! (s + n)))) \<and> p t \<noteq> None)"
  shows "\<exists>doc'. restoreStyleSheets p matching orig s doc = Inr doc' \<and>
     length doc' = length doc \<and>
     (\<forall>k < length doc. href (doc' ! k) = href (doc ! k) \<and>
        length (cssRules (doc' ! k)) = length (cssRules (doc ! k)) \<and>
        (\<forall>j < length (cssRules (doc ! k)).
           (k \<notin> set matching \<longrightarrow> cssRules (doc' ! k) ! j = cssRules (doc ! k) ! j) \<and>
           (\<forall>n < length matching. matching ! n = k \<longrightarrow>
              cssRules (doc' ! k) ! j =
                restoredRule p (if s \<le> n then savedOriginal orig (n - s) j else None)
                  (cssRules (doc ! k) ! j))))"
  using assms(2)
proof (induction orig arbitrary: s doc)
  case Nil
  then show ?case by (simp add: savedOriginal_Nil restoredRule_simps)
next
  case (Cons c cs)
  have shift: "\<And>doc1. length doc1 = length doc \<Longrightarrow>
      (\<And>k. k < length doc \<Longrightarrow> length (cssRules (doc1 ! k)) = length (cssRules (doc ! k))) \<Longrightarrow>
      \<forall>n j t. savedOriginal cs n j = Some t \<longrightarrow> t \<noteq> [] \<longrightarrow>
      (Suc s + n < length matching \<and> matching ! (Suc s + n) < length doc1 \<and>
       j < length (cssRules (doc1 ! (matching ! (Suc s + n)))) \<and> p t \<noteq> None)"
  proof (intro allI impI)
    fix doc1 n j t
    assume l: "length doc1 = length doc"
      and r: "\<And>k. k < length doc \<Longrightarrow> length (cssRules (doc1 ! k)) = length (cssRules (doc ! k))"
      and "savedOriginal cs n j = Some t" "t \<noteq> []"
    then have "s + Suc n < length matching \<and> matching ! (s + Suc n) < length doc \<and>
       j < length (cssRules (doc ! (matching ! (s + Suc n)))) \<and> p t \<noteq> None"
      using Cons.prems [rule_format, of "Suc n" j t] by (simp add: savedOriginal_Cons)
    then show "Suc s + n < length matching \<and> matching ! (Suc s + n) < length doc1 \<and>
       j < length (cssRules (doc1 ! (matching ! (Suc s + n)))) \<and> p t \<noteq> None"
      using l r by simp
  qed
  define saved0 where "saved0 = (\<lambda>j. case c of None \<Rightarrow> None | Some coll \<Rightarrow> js_get coll j)"
  have sv: "\<And>n j. (if s \<le> n then savedOriginal (c # cs) (n - s) j else None) =
      (if n = s then saved0 j
       else if Suc s \<le> n then savedOriginal cs (n - Suc s) j else None)"
    by (auto simp: savedOriginal_Cons saved0_def)
  have "\<exists>doc1. (restoreStyleSheets p matching (c # cs) s doc =
               restoreStyleSheets p matching cs (Suc s) doc1) \<and>
     length doc1 = length doc \<and>
     (\<forall>k < length doc. href (doc1 ! k) = href (doc ! k) \<and>
        length (cssRules (doc1 ! k)) = length (cssRules (doc ! k)) \<and>
        (\<forall>j < length (cssRules (doc ! k)).
           cssRules (doc1 ! k) ! j =
             restoredRule p
               (if s < length matching \<and> matching ! s = k then saved0 j else None)
               (cssRules (doc ! k) ! j)))"
  proof (cases c)
    case None
    then have "restoreStyleSheets p matching (c # cs) s doc =
               restoreStyleSheets p matching cs (Suc s) doc"
      by simp
    moreover have "\<And>j. saved0 j = None" by (simp add: saved0_def None)
    ultimately show ?thesis by (auto simp: restoredRule_simps)
  next
    case (Some coll)
    have pre: "\<forall>i < length coll. \<forall>t. coll ! i = Some t \<longrightarrow> t \<noteq> [] \<longrightarrow>
     (s < length matching \<and> matching ! s < length doc \<and>
      0 + i < length (cssRules (doc ! (matching ! s))) \<and> p t \<noteq> None)"
    proof (intro allI impI)
      fix i t assume "i < length coll" "coll ! i = Some t" "t \<noteq> []"
      then show "s < length matching \<and> matching ! s < length doc \<and>
        0 + i < length (cssRules (doc ! (matching ! s))) \<and> p t \<noteq> None"
        using Cons.prems [rule_format, of 0 i t]
        by (simp add: savedOriginal_Cons Some js_get_def)
    qed
    from restoreRules_outcome [OF pre] obtain doc1 where
      r: "restoreRules p matching s coll 0 doc = Inr doc1" and
      l: "length doc1 = length doc" and
      c: "\<forall>k < length doc. href (doc1 ! k) = href (doc ! k) \<and>
        length (cssRules (doc1 ! k)) = length (cssRules (doc ! k)) \<and>
        (\<forall>j < length (cssRules (doc ! k)).
           cssRules (doc1 ! k) ! j =
             restoredRule p
               (if s < length matching \<and> matching ! s = k \<and> 0 \<le> j
                then js_get coll (j - 0) else None)
               (cssRules (doc ! k) ! j))"
      by blast
    have "restoreStyleSheets p matching (c # cs) s doc =
               restoreStyleSheets p matching cs (Suc s) doc1"
      using Some r by simp
    moreover have "\<And>j. saved0 j = js_get coll j" by (simp add: saved0_def Some)
    ultimately show ?thesis using l c by auto
  qed
  then obtain doc1 where
    run: "restoreStyleSheets p matching (c # cs) s doc =
               restoreStyleSheets p matching cs (Suc s) doc1" and
    l1: "length doc1 = length doc" and
    c1: "\<And>k. k < length doc \<Longrightarrow> href (doc1 ! k) = href (doc ! k) \<and>
        length (cssRules (doc1 ! k)) = length (cssRules (doc ! k)) \<and>
        (\<forall>j < length (cssRules (doc ! k)).
           cssRules (doc1 ! k) ! j =
             restoredRule p
               (if s < length matching \<and> matching ! s = k then saved0 j else None)
               (cssRules (doc ! k) ! j))"
    by blast
  have lens: "\<And>k. k < length doc \<Longrightarrow> length (cssRules (doc1 ! k)) = length (cssRules (doc ! k))"
    using c1 by blast
  from Cons.IH [OF shift [OF l1 lens]] obtain doc' where
    rr: "restoreStyleSheets p matching cs (Suc s) doc1 = Inr doc'" and
    l: "length doc' = length doc1" and
    c: "\<And>k. k < length doc1 \<Longrightarrow> href (doc' ! k) = href (doc1 ! k) \<and>
        length (cssRules (doc' ! k)) = length (cssRules (doc1 ! k)) \<and>
        (\<forall>j < length (cssRules (doc1 ! k)).
           (k \<notin> set matching \<longrightarrow> cssRules (doc' ! k) ! j = cssRules (doc1 ! k) ! j) \<and>
           (\<forall>n < length matching. matching ! n = k \<longrightarrow>
              cssRules (doc' ! k) ! j =
                restoredRule p (if Suc s \<le> n then savedOriginal cs (n - Suc s) j else None)
                  (cssRules (doc1 ! k) ! j)))"
    by blast
  have "\<forall>k < length doc. href (doc' ! k) = href (doc ! k) \<and>
        length (cssRules (doc' ! k)) = length (cssRules (doc ! k)) \<and>
        (\<forall>j < length (cssRules (doc ! k)).
           (k \<notin> set matching \<longrightarrow> cssRules (doc' ! k) ! j = cssRules (doc ! k) ! j) \<and>
           (\<forall>n < length matching. matching ! n = k \<longrightarrow>
              cssRules (doc' ! k) ! j =
                restoredRule p (if s \<le> n then savedOriginal (c # cs) (n - s) j else None)
                  (cssRules (doc ! k) ! j)))"
  proof (intro allI impI conjI)
    fix k assume k: "k < length doc"
    then have k1: "k < length doc1" by (simp add: l1)
    show "href (doc' ! k) = href (doc ! k)"
      and "length (cssRules (doc' ! k)) = length (cssRules (doc ! k))"
      using c [OF k1] c1 [OF k] by simp_all
    fix j assume j: "j < length (cssRules (doc ! k))"
    then have j1: "j < length (cssRules (doc1 ! k))" using lens [OF k] by simp
    note cj = c [OF k1, THEN conjunct2, THEN conjunct2, rule_format, OF j1]
    note c1j = c1 [OF k, THEN conjunct2, THEN conjunct2, rule_format, OF j]
    {
      assume out: "k \<notin> set matching"
      then have ns: "(s < length matching \<and> matching ! s = k) = False"
        using nth_mem by blast
      have "cssRules (doc1 ! k) ! j = cssRules (doc ! k) ! j"
        using c1j unfolding ns by (simp add: restoredRule_simps)
      then show "cssRules (doc' ! k) ! j = cssRules (doc ! k) ! j"
        using cj out by simp
    }
    fix n assume n: "n < length matching" "matching ! n = k"
    show "cssRules (doc' ! k) ! j =
                restoredRule p (if s \<le> n then savedOriginal (c # cs) (n - s) j else None)
                  (cssRules (doc ! k) ! j)"
    proof (cases "n = s")
      case True
      then have "cssRules (doc' ! k) ! j = cssRules (doc1 ! k) ! j"
        using cj [THEN conjunct2, rule_format, OF n] by (simp add: restoredRule_simps)
      then show ?thesis
        unfolding sv using c1j True n by simp
    next
      case False
      then have ns: "(s < length matching \<and> matching ! s = k) = False"
        using n assms(1) by (auto simp: nth_eq_iff_index_eq)
      have "cssRules (doc1 ! k) ! j = cssRules (doc ! k) ! j"
        using c1j unfolding ns by (simp add: restoredRule_simps)
      then show ?thesis
        unfolding sv using cj [THEN conjunct2, rule_format, OF n] False by simp
    qed
  qed
  with run rr l l1 show ?case by simp
qed

subsection \<open>Two runs of the cleanup in step\<close>

lemma sameShape_update:
  assumes "sameShape d0 d" and "k < length d"
  shows "sameShape d0 (d[k := (d ! k)\<lparr>cssRules := (cssRules (d ! k))[j := r]\<rparr>])"
  using assms by (auto simp: sameShape_def nth_list_update)

lemma nth_update_rule:
  assumes "k < length d" and "j < length (cssRules (d ! k))"
  shows "cssRules (d[k := (d ! k)\<lparr>cssRules := (cssRules (d ! k))[j := r]\<rparr>] ! k') ! j' =
    (if k' = k \<and> j' = j then r else cssRules (d ! k') ! j')"
  using assms by (auto simp: nth_list_update)

lemma inStep_replaceRuleOf:
  assumes "inStep d0 e0 d e" and "replaceRuleOf p matching n t j d = Inr d'"
  shows "\<exists>e'. replaceRuleOf p matching n t j e = Inr e' \<and> inStep d0 e0 d' e'"
proof -
  define k where "k = matching ! n"
  from assms(2) obtain r where
    n: "n < length matching" and kd: "k < length d" and
    jd: "j < length (cssRules (d ! k))" and r: "p t = Some r" and
    d': "d' = d[k := (d ! k)\<lparr>cssRules := (cssRules (d ! k))[j := r]\<rparr>]"
    unfolding replaceRuleOf_Inr k_def by blast
  have sh: "sameShape d0 e0" "sameShape d0 d" "sameShape d0 e"
    using assms(1) by (simp_all add: inStep_def)
  have k0: "k < length d0" using sh(2) kd by (simp add: sameShape_def)
  have ke: "k < length e" using sh(3) k0 by (simp add: sameShape_def)
  have j0: "j < length (cssRules (d0 ! k))"
    using sh(2) k0 jd by (simp add: sameShape_def)
  have je: "j < length (cssRules (e ! k))"
    using sh(3) k0 j0 by (simp add: sameShape_def)
  define e' where "e' = e[k := (e ! k)\<lparr>cssRules := (cssRules (e ! k))[j := r]\<rparr>]"
  have run: "replaceRuleOf p matching n t j e = Inr e'"
    unfolding replaceRuleOf_Inr using n ke je r by (simp add: e'_def k_def)
  have s1: "sameShape d0 d'" unfolding d' using sh(2) kd by (rule sameShape_update)
  have s2: "sameShape d0 e'" unfolding e'_def using sh(3) ke by (rule sameShape_update)
  have "\<forall>k' < length d0. \<forall>j' < length (cssRules (d0 ! k')).
         cssRules (d' ! k') ! j' = cssRules (e' ! k') ! j' \<or>
         (cssRules (d' ! k') ! j' = cssRules (d0 ! k') ! j' \<and>
          cssRules (e' ! k') ! j' = cssRules (e0 ! k') ! j')"
  proof (intro allI impI)
    fix k' j' assume "k' < length d0" "j' < length (cssRules (d0 ! k'))"
    then have old: "cssRules (d ! k') ! j' = cssRules (e ! k') ! j' \<or>
         (cssRules (d ! k') ! j' = cssRules (d0 ! k') ! j' \<and>
          cssRules (e ! k') ! j' = cssRules (e0 ! k') ! j')"
      using assms(1) by (simp add: inStep_def)
    show "cssRules (d' ! k') ! j' = cssRules (e' ! k') ! j' \<or>
         (cssRules (d' ! k') ! j' = cssRules (d0 ! k') ! j' \<and>
          cssRules (e' ! k') ! j' = cssRules (e0 ! k') ! j')"
      unfolding d' e'_def nth_update_rule [OF kd jd] nth_update_rule [OF ke je]
      using old by simp
  qed
  then have "inStep d0 e0 d' e'"
    using sh(1) s1 s2 by (simp add: inStep_def)
  with run show ?thesis by blast
qed

lemma inStep_restoreRules:
  assumes "inStep d0 e0 d e" and "restoreRules p matching n coll ri d = Inr d'"
  shows "\<exists>e'. restoreRules p matching n coll ri e = Inr e' \<and> inStep d0 e0 d' e'"
  using assms
proof (induction coll arbitrary: ri d e)
  case Nil
  then show ?case by simp
next
  case (Cons c coll)
  show ?case
  proof (cases "\<exists>t. c = Some t \<and> t \<noteq> []")
    case False
    then have "\<And>x. restoreRules p matching n (c # coll) ri x =
        restoreRules p matching n coll (Suc ri) x"
      by (cases c) auto
    then show ?thesis using Cons.IH [OF Cons.prems(1)] Cons.prems(2) by simp
  next
    case True
    then obtain t where t: "c = Some t" "t \<noteq> []" by blast
    from Cons.prems(2) t obtain d1 where
      a: "replaceRuleOf p matching n t ri d = Inr d1" and
      b: "restoreRules p matching n coll (Suc ri) d1 = Inr d'"
      by (cases "replaceRuleOf p matching n t ri d") auto
    from inStep_replaceRuleOf [OF Cons.prems(1) a] obtain e1 where
      a': "replaceRuleOf p matching n t ri e = Inr e1" and i1: "inStep d0 e0 d1 e1"
      by blast
    from Cons.IH [OF i1 b] obtain e' where
      "restoreRules p matching n coll (Suc ri) e1 = Inr e'" "inStep d0 e0 d' e'"
      by blast
    then show ?thesis using t a' by simp
  qed
qed

lemma inStep_restoreStyleSheets:
  assumes "inStep d0 e0 d e" and "restoreStyleSheets p matching orig s d = Inr d'"
  shows "\<exists>e'. restoreStyleSheets p matching orig s e = Inr e' \<and> inStep d0 e0 d' e'"
  using assms
proof (induction orig arbitrary: s d e)
  case Nil
  then show ?case by simp
next
  case (Cons c cs)
  show ?case
  proof (cases c)
    case None
    then show ?thesis using Cons.IH [OF Cons.prems(1)] Cons.prems(2) by simp
  next
    case (Some coll)
    from Cons.prems(2) Some obtain d1 where
      a: "restoreRules p matching s coll 0 d = Inr d1" and
      b: "restoreStyleSheets p matching cs (Suc s) d1 = Inr d'"
      by (cases "restoreRules p matching s coll 0 d") auto
    from inStep_restoreRules [OF Cons.prems(1) a] obtain e1 where
      a': "restoreRules p matching s coll 0 e = Inr e1" and i1: "inStep d0 e0 d1 e1"
      by blast
    from Cons.IH [OF i1 b] obtain e' where
      "restoreStyleSheets p matching cs (Suc s) e1 = Inr e'" "inStep d0 e0 d' e'"
      by blast
    then show ?thesis using Some a' by simp
  qed
qed

lemma sameShape_refl: "sameShape d d"
  by (simp add: sameShape_def)

lemma restoreStyleSheets_sameShape:
  assumes "restoreStyleSheets p matching orig s d = Inr d'"
  shows "sameShape d d'"
proof -
  have "inStep d d d d" by (simp add: inStep_def sameShape_refl)
  from inStep_restoreStyleSheets [OF this assms] show ?thesis
    using assms by (auto simp: inStep_def)
qed

lemma styleSheets_eqI:
  assumes "sameShape d e"
    and "\<And>k j. k < length d \<Longrightarrow> j < length (cssRules (d ! k)) \<Longrightarrow>
           cssRules (e ! k) ! j = cssRules (d ! k) ! j"
  shows "e = d"
proof (rule nth_equalityI)
  show "length e = length d" using assms(1) by (simp add: sameShape_def)
next
  fix k assume "k < length e"
  then have k: "k < length d" using assms(1) by (simp add: sameShape_def)
  have "cssRules (e ! k) = cssRules (d ! k)"
    using assms k by (auto simp: sameShape_def intro!: nth_equalityI)
  moreover have "href (e ! k) = href (d ! k)"
    using assms(1) k by (simp add: sameShape_def)
  ultimately show "e ! k = d ! k" by simp
qed

lemma restoreStyleSheets_idempotent:
  assumes "restoreStyleSheets p matching orig s d = Inr d'"
  shows "restoreStyleSheets p matching orig s d' = Inr d'"
proof -
  have sh: "sameShape d d'" using assms by (rule restoreStyleSheets_sameShape)
  then have "inStep d d' d d'"
    by (simp add: inStep_def sameShape_refl)
  from inStep_restoreStyleSheets [OF this assms] obtain e' where
    run: "restoreStyleSheets p matching orig s d' = Inr e'" and i: "inStep d d' d' e'"
    by blast
  have "e' = d'"
  proof (rule styleSheets_eqI)
    show "sameShape d' e'"
      using i sh by (auto simp: inStep_def sameShape_def)
  next
    fix k j assume "k < length d'" "j < length (cssRules (d' ! k))"
    then have "k < length d" "j < length (cssRules (d ! k))"
      using sh by (simp_all add: sameShape_def)
    then have "cssRules (d' ! k) ! j = cssRules (e' ! k) ! j \<or>
         (cssRules (d' ! k) ! j = cssRules (d ! k) ! j \<and>
          cssRules (e' ! k) ! j = cssRules (d' ! k) ! j)"
      using i by (simp add: inStep_def)
    then show "cssRules (e' ! k) ! j = cssRules (d' ! k) ! j"
      by auto
  qed
  with run show ?thesis by simp
qed

lemma replaceRuleOf_frame:
  "replaceRuleOf p matching n t j d = Inr d' \<Longrightarrow> k \<notin> set matching \<Longrightarrow> d' ! k = d ! k"
  unfolding replaceRuleOf_Inr by (metis nth_list_update_neq nth_mem)

lemma restoreRules_frame:
  "restoreRules p matching n coll ri d = Inr d' \<Longrightarrow> k \<notin> set matching \<Longrightarrow> d' ! k = d ! k"
proof (induction coll arbitrary: ri d)
  case Nil
  then show ?case by simp
next
  case (Cons c coll)
  show ?case
  proof (cases "\<exists>t. c = Some t \<and> t \<noteq> []")
    case False
    then have "restoreRules p matching n (c # coll) ri d =
        restoreRules p matching n coll (Suc ri) d"
      by (cases c) auto
    then show ?thesis using Cons by simp
  next
    case True
    then obtain t where t: "c = Some t" "t \<noteq> []" by blast
    from Cons.prems(1) t obtain d1 where
      a: "replaceRuleOf p matching n t ri d = Inr d1" and
      b: "restoreRules p matching n coll (Suc ri) d1 = Inr d'"
      by (cases "replaceRuleOf p matching n t ri d") auto
    show ?thesis
      using Cons.IH [OF b Cons.prems(2)] replaceRuleOf_frame [OF a Cons.prems(2)] by simp
  qed
qed

lemma restoreStyleSheets_frame:
  "restoreStyleSheets p matching orig s d = Inr d' \<Longrightarrow> k \<notin> set matching \<Longrightarrow> d' ! k = d ! k"
proof (induction orig arbitrary: s d)
  case Nil
  then show ?case by simp
next
  case (Cons c cs)
  show ?case
  proof (cases c)
    case None
    then show ?thesis using Cons by simp
  next
    case (Some coll)
    from Cons.prems(1) Some obtain d1 where
      a: "restoreRules p matching s coll 0 d = Inr d1" and
      b: "restoreStyleSheets p matching cs (Suc s) d1 = Inr d'"
      by (cases "restoreRules p matching s coll 0 d") auto
    show ?thesis
      using Cons.IH [OF b Cons.prems(2)] restoreRules_frame [OF a Cons.prems(2)] by simp
  qed
qed

lemma restoreRules_sameShape:
  assumes "restoreRules p matching n coll ri d = Inr d'"
  shows "sameShape d d'"
proof -
  have "inStep d d d d" by (simp add: inStep_def sameShape_refl)
  from inStep_restoreRules [OF this assms] show ?thesis
    using assms by (auto simp: inStep_def)
qed

lemma restoreRules_error:
  assumes "restoreRules p matching n coll ri d = Inl e"
    and "\<forall>i < length coll. \<forall>t. coll ! i = Some t \<longrightarrow> t \<noteq> [] \<longrightarrow>
      (n < length matching \<and> matching ! n < length d \<and>
       ri + i < length (cssRules (d ! (matching ! n))))"
  shows "e = SyntaxError"
  using assms
proof (induction coll arbitrary: ri d)
  case Nil
  then show ?case by simp
next
  case (Cons c coll)
  have shift: "\<And>d1. sameShape d d1 \<Longrightarrow>
     \<forall>i < length coll. \<forall>t. coll ! i = Some t \<longrightarrow> t \<noteq> [] \<longrightarrow>
      (n < length matching \<and> matching ! n < length d1 \<and>
       Suc ri + i < length (cssRules (d1 ! (matching ! n))))"
  proof (intro allI impI)
    fix d1 i t assume sh: "sameShape d d1" and "i < length coll" "coll ! i = Some t" "t \<noteq> []"
    then have "n < length matching \<and> matching ! n < length d \<and>
       ri + Suc i < length (cssRules (d ! (matching ! n)))"
      using Cons.prems(2) [rule_format, of "Suc i" t] by simp
    then show "n < length matching \<and> matching ! n < length d1 \<and>
       Suc ri + i < length (cssRules (d1 ! (matching ! n)))"
      using sh by (simp add: sameShape_def)
  qed
  show ?case
  proof (cases "\<exists>t. c = Some t \<and> t \<noteq> []")
    case False
    then have "restoreRules p matching n (c # coll) ri d =
        restoreRules p matching n coll (Suc ri) d"
      by (cases c) auto
    then show ?thesis using Cons.IH [OF _ shift [OF sameShape_refl]] Cons.prems(1) by simp
  next
    case True
    then obtain t where t: "c = Some t" "t \<noteq> []" by blast
    have valid: "n < length matching" "matching ! n < length d"
      "ri < length (cssRules (d ! (matching ! n)))"
      using Cons.prems(2) [rule_format, of 0 t] t by simp_all
    show ?thesis
    proof (cases "replaceRuleOf p matching n t ri d")
      case (Inl e')
      then have "e' = SyntaxError"
        using valid by (auto simp: replaceRuleOf_def replaceRule_eq split: option.splits)
      then show ?thesis using Cons.prems(1) t Inl by simp
    next
      case (Inr d1)
      then have "sameShape d d1"
        unfolding replaceRuleOf_Inr using sameShape_update [OF sameShape_refl valid(2)]
        by auto
      from Cons.IH [OF _ shift [OF this]] show ?thesis
        using Cons.prems(1) t Inr by simp
    qed
  qed
qed

lemma restoreStyleSheets_error:
  assumes "restoreStyleSheets p matching orig s d = Inl e"
    and "\<forall>n j t. savedOriginal orig n j = Some t \<longrightarrow> t \<noteq> [] \<longrightarrow>
      (s + n < length matching \<and> matching ! (s + n) < length d \<and>
       j < length (cssRules (d ! (matching ! (s + n)))))"
  shows "e = SyntaxError"
  using assms
proof (induction orig arbitrary: s d)
  case Nil
  then show ?case by simp
next
  case (Cons c cs)
  have shift: "\<And>d1. sameShape d d1 \<Longrightarrow>
      \<forall>n j t. savedOriginal cs n j = Some t \<longrightarrow> t \<noteq> [] \<longrightarrow>
      (Suc s + n < length matching \<and> matching ! (Suc s + n) < length d1 \<and>
       j < length (cssRules (d1 ! (matching ! (Suc s + n)))))"
  proof (intro allI impI)
    fix d1 n j t
    assume sh: "sameShape d d1" and "savedOriginal cs n j = Some t" "t \<noteq> []"
    then have "s + Suc n < length matching \<and> matching ! (s + Suc n) < length d \<and>
       j < length (cssRules (d ! (matching ! (s + Suc n))))"
      using Cons.prems(2) [rule_format, of "Suc n" j t] by (simp add: savedOriginal_Cons)
    then show "Suc s + n < length matching \<and> matching ! (Suc s + n) < length d1 \<and>
       j < length (cssRules (d1 ! (matching ! (Suc s + n))))"
      using sh by (simp add: sameShape_def)
  qed
  show ?case
  proof (cases c)
    case None
    then show ?thesis
      using Cons.IH [OF _ shift [OF sameShape_refl]] Cons.prems(1) by simp
  next
    case (Some coll)
    have pre: "\<forall>i < length coll. \<forall>t. coll ! i = Some t \<longrightarrow> t \<noteq> [] \<longrightarrow>
      (s < length matching \<and> matching ! s < length d \<and>
       0 + i < length (cssRules (d ! (matching ! s))))"
    proof (intro allI impI)
      fix i t assume "i < length coll" "coll ! i = Some t" "t \<noteq> []"
      then show "s < length matching \<and> matching ! s < length d \<and>
        0 + i < length (cssRules (d ! (matching ! s)))"
        using Cons.prems(2) [rule_format, of 0 i t]
        by (simp add: savedOriginal_Cons Some js_get_def)
    qed
    show ?thesis
    proof (cases "restoreRules p matching s coll 0 d")
      case (Inl e')
      then have "e' = SyntaxError" using pre by (rule restoreRules_error)
      then show ?thesis using Cons.prems(1) Some Inl by simp
    next
      case (Inr d1)
      then have "sameShape d d1" by (rule restoreRules_sameShape)
      from Cons.IH [OF _ shift [OF this]] show ?thesis
        using Cons.prems(1) Some Inr by simp
    qed
  qed
qed

subsection \<open>The cleanup after the effect\<close>

lemma replace_Nil: "replaceMediaQueryWithWidthEvaluation m [] w = []"
  by simp

lemma isRewritten_D:
  "isRewritten rs j \<Longrightarrow> j < length rs \<and> isReplaceableMediaRule (rs ! j)"
  by (simp add: isRewritten_def)

lemma activation_saved_valid:
  assumes act: "useSimulatedMediaQuery m p win w = Inr (win1, matching, orig)"
    and saved: "savedOriginal orig n j = Some t"
  shows "n < length matching" and "matching ! n < length (styleSheets win1)"
    and "j < length (cssRules (styleSheets win1 ! (matching ! n)))"
    and "isRewritten (cssRules (styleSheets win ! (matching ! n))) j"
    and "t = cssText (cssRules (styleSheets win ! (matching ! n)) ! j)"
proof -
  note o = activation_outcome [OF act]
  note parts = activation_parts [OF act]
  from saved o(4) [of n j] show n: "n < length matching"
    and isr: "isRewritten (cssRules (styleSheets win ! (matching ! n))) j"
    and "t = cssText (cssRules (styleSheets win ! (matching ! n)) ! j)"
    by (auto split: if_splits)
  have k: "matching ! n < length (styleSheets win)"
    using n matching_in_range [of win] parts(1) nth_mem by blast
  then show "matching ! n < length (styleSheets win1)" using o(1) by simp
  have "length (cssRules (styleSheets win1 ! (matching ! n))) =
      length (cssRules (styleSheets win ! (matching ! n)))"
    using o(3) [OF n] by (simp add: rewrittenSheet_def)
  then show "j < length (cssRules (styleSheets win1 ! (matching ! n)))"
    using isr by (simp add: isRewritten_def)
qed

lemma cleanup_Inr:
  "cleanup p closure win = Inr win' \<longleftrightarrow>
     (\<exists>doc. restoreStyleSheets p (fst closure) (snd closure) 0 (styleSheets win) = Inr doc \<and>
        win' = win\<lparr>styleSheets := doc\<rparr>)"
  by (auto simp: cleanup_def split: sum.splits)

lemma cleanup_after_activation:
  assumes act: "useSimulatedMediaQuery m p win w = Inr (win1, matching, orig)"
    and stable: "\<forall>sh \<in> set (styleSheets win). \<forall>r \<in> set (cssRules sh).
                   isReplaceableMediaRule r \<longrightarrow> reparses p r"
  shows "\<exists>doc2. restoreStyleSheets p matching orig 0 (styleSheets win1) = Inr doc2 \<and>
     length doc2 = length (styleSheets win) \<and>
     (\<forall>k < length (styleSheets win). href (doc2 ! k) = href (styleSheets win ! k) \<and>
        length (cssRules (doc2 ! k)) = length (cssRules (styleSheets win ! k)) \<and>
        (\<forall>j < length (cssRules (styleSheets win ! k)).
           cssText (cssRules (doc2 ! k) ! j) = cssText (cssRules (styleSheets win ! k) ! j)))"
proof -
  define doc where "doc = styleSheets win"
  define doc1 where "doc1 = styleSheets win1"
  note o = activation_outcome [OF act, folded doc_def doc1_def]
  note parts = activation_parts [OF act]
  have d: "distinct matching" unfolding parts(1) by (rule matching_distinct)
  have inr: "\<And>n. n < length matching \<Longrightarrow> matching ! n < length doc"
    using matching_in_range [of win] parts(1) nth_mem unfolding doc_def by blast
  have st: "\<And>k j. k < length doc \<Longrightarrow> isRewritten (cssRules (doc ! k)) j \<Longrightarrow>
      \<exists>r'. p (cssText (cssRules (doc ! k) ! j)) = Some r' \<and>
           cssText r' = cssText (cssRules (doc ! k) ! j)"
  proof -
    fix k j assume k: "k < length doc" and isr: "isRewritten (cssRules (doc ! k)) j"
    then have "doc ! k \<in> set (styleSheets win)" "cssRules (doc ! k) ! j \<in> set (cssRules (doc ! k))"
      "isReplaceableMediaRule (cssRules (doc ! k) ! j)"
      unfolding doc_def by (simp_all add: isRewritten_def)
    then have "reparses p (cssRules (doc ! k) ! j)" using stable by blast
    then show "\<exists>r'. p (cssText (cssRules (doc ! k) ! j)) = Some r' \<and>
           cssText r' = cssText (cssRules (doc ! k) ! j)"
      by (auto simp: reparses_def split: option.splits)
  qed
  have pre: "\<forall>n j t. savedOriginal orig n j = Some t \<longrightarrow> t \<noteq> [] \<longrightarrow>
      (0 + n < length matching \<and> matching ! (0 + n) < length doc1 \<and>
       j < length (cssRules (doc1 ! (matching ! (0 + n)))) \<and> p t \<noteq> None)"
  proof (intro allI impI)
    fix n j t assume s: "savedOriginal orig n j = Some t" and "t \<noteq> []"
    note v = activation_saved_valid [OF act s, folded doc_def doc1_def]
    have "p t \<noteq> None" using st [OF inr [OF v(1)] v(4)] v(5) by auto
    then show "0 + n < length matching \<and> matching ! (0 + n) < length doc1 \<and>
       j < length (cssRules (doc1 ! (matching ! (0 + n)))) \<and> p t \<noteq> None"
      using v by simp
  qed
  from restoreStyleSheets_outcome [OF d pre] obtain doc2 where
    run: "restoreStyleSheets p matching orig 0 doc1 = Inr doc2" and
    l2: "length doc2 = length doc1" and
    c2: "\<And>k. k < length doc1 \<Longrightarrow> href (doc2 ! k) = href (doc1 ! k) \<and>
        length (cssRules (doc2 ! k)) = length (cssRules (doc1 ! k)) \<and>
        (\<forall>j < length (cssRules (doc1 ! k)).
           (k \<notin> set matching \<longrightarrow> cssRules (doc2 ! k) ! j = cssRules (doc1 ! k) ! j) \<and>
           (\<forall>n < length matching. matching ! n = k \<longrightarrow>
              cssRules (doc2 ! k) ! j =
                restoredRule p (if 0 \<le> n then savedOriginal orig (n - 0) j else None)
                  (cssRules (doc1 ! k) ! j)))"
    by blast
  have "\<forall>k < length doc. href (doc2 ! k) = href (doc ! k) \<and>
        length (cssRules (doc2 ! k)) = length (cssRules (doc ! k)) \<and>
        (\<forall>j < length (cssRules (doc ! k)).
           cssText (cssRules (doc2 ! k) ! j) = cssText (cssRules (doc ! k) ! j))"
  proof (intro allI impI)
    fix k assume k: "k < length doc"
    then have k1: "k < length doc1" using o(1) by simp
    show "href (doc2 ! k) = href (doc ! k) \<and>
        length (cssRules (doc2 ! k)) = length (cssRules (doc ! k)) \<and>
        (\<forall>j < length (cssRules (doc ! k)).
           cssText (cssRules (doc2 ! k) ! j) = cssText (cssRules (doc ! k) ! j))"
    proof (cases "k \<in> set matching")
      case False
      then have same: "doc1 ! k = doc ! k" using o(2) [OF k] by simp
      then show ?thesis using c2 [OF k1] False by simp
    next
      case True
      then obtain n where n: "n < length matching" "matching ! n = k"
        by (auto simp: in_set_conv_nth)
      have rw: "rewrittenSheet m p w (doc ! k) (doc1 ! k)" using o(3) [OF n(1)] n(2) by simp
      then have h1: "href (doc1 ! k) = href (doc ! k)"
        and l1: "length (cssRules (doc1 ! k)) = length (cssRules (doc ! k))"
        by (simp_all add: rewrittenSheet_def)
      have "\<forall>j < length (cssRules (doc ! k)).
           cssText (cssRules (doc2 ! k) ! j) = cssText (cssRules (doc ! k) ! j)"
      proof (intro allI impI)
        fix j assume j: "j < length (cssRules (doc ! k))"
        then have j1: "j < length (cssRules (doc1 ! k))" using l1 by simp
        have at2: "cssRules (doc2 ! k) ! j =
            restoredRule p (savedOriginal orig n j) (cssRules (doc1 ! k) ! j)"
          using c2 [OF k1, THEN conjunct2, THEN conjunct2, rule_format, OF j1,
              THEN conjunct2, rule_format, OF n]
          by simp
        have sv: "savedOriginal orig n j =
           (if isRewritten (cssRules (doc ! k)) j
            then Some (cssText (cssRules (doc ! k) ! j)) else None)"
          using o(4) [of n j] n by simp
        show "cssText (cssRules (doc2 ! k) ! j) = cssText (cssRules (doc ! k) ! j)"
        proof (cases "isRewritten (cssRules (doc ! k)) j")
          case False
          then have "cssRules (doc1 ! k) ! j = cssRules (doc ! k) ! j"
            using rw j by (simp add: rewrittenSheet_def)
          then show ?thesis using at2 sv False by (simp add: restoredRule_simps)
        next
          case True
          define t where "t = cssText (cssRules (doc ! k) ! j)"
          from st [OF k True] obtain r' where r': "p t = Some r'" "cssText r' = t"
            unfolding t_def by blast
          show ?thesis
          proof (cases "t = []")
            case False
            then have "cssRules (doc2 ! k) ! j = r'"
              using at2 sv True r' by (simp add: restoredRule_simps t_def)
            then show ?thesis using r' by (simp add: t_def)
          next
            case empty: True
            have "p (replaceMediaQueryWithWidthEvaluation m t w) = Some (cssRules (doc1 ! k) ! j)"
              using rw j True by (simp add: rewrittenSheet_def t_def)
            then have "cssRules (doc1 ! k) ! j = r'"
              using r' empty by simp
            moreover have "cssRules (doc2 ! k) ! j = cssRules (doc1 ! k) ! j"
              using at2 sv True empty by (simp add: restoredRule_simps t_def)
            ultimately show ?thesis using r' by (simp add: t_def)
          qed
        qed
      qed
      then show ?thesis using c2 [OF k1] h1 l1 by simp
    qed
  qed
  with run l2 o(1) show ?thesis
    unfolding doc_def doc1_def by simp
qed

subsection \<open>Sheets the scan does not visit\<close>

lemma scanStyleSheets_independent:
  assumes "k \<notin> set refs"
  shows "scanStyleSheets m p w refs s (doc[k := x]) orig =
    (case scanStyleSheets m p w refs s doc orig of
       Inl e \<Rightarrow> Inl e
     | Inr (doc', orig') \<Rightarrow> Inr (doc'[k := x], orig'))"
  using assms
proof (induction refs arbitrary: s doc orig)
  case Nil
  then show ?case by simp
next
  case (Cons ref refs)
  then have ne: "ref \<noteq> k" "k \<notin> set refs" by auto
  show ?case
  proof (cases "ref < length doc")
    case False
    then show ?thesis by simp
  next
    case True
    show ?thesis
    proof (cases "scanRules m p w s 0 False (doc ! ref) orig")
      case (Inl e)
      then show ?thesis using True ne by simp
    next
      case (Inr res)
      obtain sh orig1 where res: "res = (sh, orig1)" by (cases res)
      have swap: "doc[k := x, ref := sh] = doc[ref := sh, k := x]"
        using ne by (simp add: list_update_swap)
      show ?thesis
        using True ne Inr res Cons.IH [OF ne(2), of "Suc s" "doc[ref := sh]" orig1]
        by (simp add: swap)
    qed
  qed
qed

lemma matching_independent:
  assumes "k < length (styleSheets win)"
    and "\<forall>h. href (styleSheets win ! k) = Some h \<longrightarrow> \<not> str_includes h (hostname win)"
    and "\<forall>h. href other = Some h \<longrightarrow> \<not> str_includes h (hostname win)"
  shows "getStyleSheetsThatMatchHostname (win\<lparr>styleSheets := (styleSheets win)[k := other]\<rparr>) =
    getStyleSheetsThatMatchHostname win"
  unfolding getStyleSheetsThatMatchHostname_def
  using assms
  by (auto intro!: filter_cong simp: nth_list_update split: option.splits)

subsection \<open>The examples, evaluated\<close>

lemma example_activation:
  "useSimulatedMediaQuery css_match parseText exampleWindow 320 =
     Inr (exampleWindowAt320, [1, 3], exampleOriginals)"
  by code_simp

lemma example_cleanup:
  "cleanup parseText ([1, 3], exampleOriginals) exampleWindowAt320 = Inr exampleWindow"
  by code_simp

lemma markers_inside_activation:
  "useSimulatedMediaQuery css_match parseText markersInsideWindow 320 =
     Inr (markersInsideWindowAt320, [0],
          [Some [Some ''@media (min-width:600px){#start-resizable-editor-section{display:none}}'',
                 Some ''@media (min-width:600px){a{top:0}}'']])"
  by code_simp

lemma example_reparses:
  "\<forall>sh \<in> set (styleSheets exampleWindow). \<forall>r \<in> set (cssRules sh).
     isReplaceableMediaRule r \<longrightarrow> reparses parseText r"
  by code_simp

lemma editor_rules: "cssRules editorSheet = cssRules (styleSheets exampleWindow ! ([1, 3] ! 0))"
  by (simp add: exampleWindow_def)

lemma open_rules: "cssRules openSheet = cssRules (styleSheets exampleWindow ! ([1, 3] ! 1))"
  by (simp add: exampleWindow_def)

section \<open>Claims\<close>

text \<open>
  Claim C1. Every width clause of a rule text is evaluated on its own and replaced: where
  plain text is followed by a width clause, the clause becomes \<open>(min-width:0px)\<close> when
  \<open>match\<close> accepts it at the target width and \<open>(min-width:999999px)\<close> when not, whatever
  follows, and rewriting goes on behind the clause. With the matching utility as the
  spec describes it, a clause \<open>min-width:V\<close> matches iff \<open>V \<le> w\<close> and a clause
  \<open>max-width:V\<close> iff \<open>w \<le> V\<close>; so a rule whose only width clause is \<open>(min-width:500px)\<close>
  gets the always-true form iff \<open>500 \<le> w\<close> and the always-false form iff \<open>w < 500\<close>.
  The rule that the effect installs at a position it rewrites is the browser's reading
  of the rule text rewritten in this way.
\<close>

theorem width_clauses_evaluated_and_replaced:
  "(\<not> regex_matches_somewhere before \<and> is_width_clause clause \<longrightarrow>
      replaceMediaQueryWithWidthEvaluation match (before @ clause @ rest) w =
        before @ (if match clause w then ENABLED_MEDIA_QUERY else DISABLED_MEDIA_QUERY)
        @ replaceMediaQueryWithWidthEvaluation match rest w)
   \<and> (ds \<noteq> [] \<and> decimal_digits 0 ds = Some v \<longrightarrow>
        is_width_clause (''(min-width:'' @ ds @ ''px)'') \<and>
        is_width_clause (''(max-width:'' @ ds @ ''px)'') \<and>
        (css_match (''(min-width:'' @ ds @ ''px)'') w \<longleftrightarrow> int v \<le> w) \<and>
        (css_match (''(max-width:'' @ ds @ ''px)'') w \<longleftrightarrow> w \<le> int v))
   \<and> (\<not> regex_matches_somewhere before \<and> \<not> regex_matches_somewhere rest \<longrightarrow>
        replaceMediaQueryWithWidthEvaluation css_match (before @ ''(min-width:500px)'' @ rest) w =
          before @ (if 500 \<le> w then ''(min-width:0px)'' else ''(min-width:999999px)'') @ rest)
   \<and> (useSimulatedMediaQuery match parseRule win w = Inr (win', matching, originalStyles) \<and>
       n < length matching \<and> isRewritten (cssRules (styleSheets win ! (matching ! n))) j \<longrightarrow>
        parseRule (replaceMediaQueryWithWidthEvaluation match
                     (cssText (cssRules (styleSheets win ! (matching ! n)) ! j)) w) =
          Some (cssRules (styleSheets win' ! (matching ! n)) ! j))"
proof (intro conjI impI)
  assume "\<not> regex_matches_somewhere before \<and> is_width_clause clause"
  then show "replaceMediaQueryWithWidthEvaluation match (before @ clause @ rest) w =
        before @ (if match clause w then ENABLED_MEDIA_QUERY else DISABLED_MEDIA_QUERY)
        @ replaceMediaQueryWithWidthEvaluation match rest w"
    by (simp add: replace_step)
next
  assume a: "ds \<noteq> [] \<and> decimal_digits 0 ds = Some v"
  then have plain: "CHR ''('' \<notin> set (ds @ ''px'')" "CHR '')'' \<notin> set (ds @ ''px'')"
    using decimal_digits_plain [of 0 ds v] by auto
  show "is_width_clause (''(min-width:'' @ ds @ ''px)'')"
    using width_clause_min [OF plain] by simp
  show "is_width_clause (''(max-width:'' @ ds @ ''px)'')"
    using width_clause_max [OF plain] by simp
  show "css_match (''(min-width:'' @ ds @ ''px)'') w \<longleftrightarrow> int v \<le> w"
    using a css_match_min by blast
  show "css_match (''(max-width:'' @ ds @ ''px)'') w \<longleftrightarrow> w \<le> int v"
    using a css_match_max by blast
next
  assume a: "\<not> regex_matches_somewhere before \<and> \<not> regex_matches_somewhere rest"
  have c: "is_width_clause ''(min-width:500px)''"
    using width_clause_min [of "''500px''"] by simp
  have m: "css_match ''(min-width:500px)'' w \<longleftrightarrow> 500 \<le> w"
    using css_match_min [of "''500''" 500 w] by (simp add: digit_value_def)
  show "replaceMediaQueryWithWidthEvaluation css_match (before @ ''(min-width:500px)'' @ rest) w =
          before @ (if 500 \<le> w then ''(min-width:0px)'' else ''(min-width:999999px)'') @ rest"
    using a replace_step [of before "''(min-width:500px)''" css_match rest w] c m
    by (simp add: replace_clause_free ENABLED_MEDIA_QUERY_def DISABLED_MEDIA_QUERY_def)
next
  assume a: "useSimulatedMediaQuery match parseRule win w = Inr (win', matching, originalStyles) \<and>
       n < length matching \<and> isRewritten (cssRules (styleSheets win ! (matching ! n))) j"
  then have act: "useSimulatedMediaQuery match parseRule win w
      = Inr (win', matching, originalStyles)"
    and n: "n < length matching"
    and r: "isRewritten (cssRules (styleSheets win ! (matching ! n))) j"
    by blast+
  from r have "j < length (cssRules (styleSheets win ! (matching ! n)))"
    by (simp add: isRewritten_def)
  then show "parseRule (replaceMediaQueryWithWidthEvaluation match
                     (cssText (cssRules (styleSheets win ! (matching ! n)) ! j)) w) =
          Some (cssRules (styleSheets win' ! (matching ! n)) ! j)"
    using activation_outcome(3) [OF act n] r by (simp add: rewrittenSheet_def)
qed

theorem width_clauses_evaluated_and_replaced_witness:
  "(\<not> regex_matches_somewhere ''@media screen and '' \<and> is_width_clause ''(max-width: 782px)'')
   \<and> replaceMediaQueryWithWidthEvaluation (\<lambda>c w. w \<le> 782)
        (''@media screen and '' @ ''(max-width: 782px)'' @ ''{a{top:0}}'') 1024 =
      ''@media screen and '' @ ''(min-width:999999px)'' @ ''{a{top:0}}''
   \<and> (''768'' \<noteq> [] \<and> decimal_digits 0 ''768'' = Some 768)
   \<and> css_match ''(min-width:768px)'' 1024 \<and> \<not> css_match ''(min-width:768px)'' 320
   \<and> css_match ''(max-width:768px)'' 320 \<and> \<not> css_match ''(max-width:768px)'' 1024
   \<and> (\<not> regex_matches_somewhere ''@media '' \<and> \<not> regex_matches_somewhere ''{a{top:0}}'')
   \<and> replaceMediaQueryWithWidthEvaluation css_match
        (''@media '' @ ''(min-width:500px)'' @ ''{a{top:0}}'') 499 =
      ''@media (min-width:999999px){a{top:0}}''
   \<and> replaceMediaQueryWithWidthEvaluation css_match
        (''@media '' @ ''(min-width:500px)'' @ ''{a{top:0}}'') 500 =
      ''@media (min-width:0px){a{top:0}}''
   \<and> useSimulatedMediaQuery css_match parseText exampleWindow 320 =
        Inr (exampleWindowAt320, [1, 3], exampleOriginals)
   \<and> isRewritten (cssRules editorSheet) 2
   \<and> cssRules editorSheet ! 2 = textRule ''@media (min-width:600px){a{top:0}}''
   \<and> cssRules (styleSheets exampleWindowAt320 ! 1) ! 2 =
        textRule ''@media (min-width:999999px){a{top:0}}''"
proof -
  have h1: "\<not> regex_matches_somewhere ''@media screen and '' \<and> is_width_clause ''(max-width: 782px)''"
    by (simp add: is_width_clause_def VALID_MEDIA_QUERY_REGEX_def min_or_max_def)
  have h2: "''768'' \<noteq> [] \<and> decimal_digits 0 ''768'' = Some 768"
    by (simp add: digit_value_def)
  have h3: "\<not> regex_matches_somewhere ''@media '' \<and> \<not> regex_matches_somewhere ''{a{top:0}}''"
    by (simp add: VALID_MEDIA_QUERY_REGEX_def min_or_max_def)
  have r: "replaceMediaQueryWithWidthEvaluation (\<lambda>c w. w \<le> 782) ''{a{top:0}}'' 1024 = ''{a{top:0}}''"
    by (simp add: VALID_MEDIA_QUERY_REGEX_def min_or_max_def)
  have r2: "isRewritten (cssRules editorSheet) 2"
    "cssRules editorSheet ! 2 = textRule ''@media (min-width:600px){a{top:0}}''"
    by code_simp+
  have h4: "useSimulatedMediaQuery css_match parseText exampleWindow 320 =
        Inr (exampleWindowAt320, [1, 3], exampleOriginals) \<and>
      0 < length [1::nat, 3] \<and>
      isRewritten (cssRules (styleSheets exampleWindow ! ([1, 3] ! 0))) 2"
    using example_activation r2 by (simp add: exampleWindow_def)
  have v: "parseText (replaceMediaQueryWithWidthEvaluation css_match
      (cssText (cssRules (styleSheets exampleWindow ! ([1, 3] ! 0)) ! 2)) 320) =
      Some (textRule ''@media (min-width:999999px){a{top:0}}'')"
    by code_simp
  note t1 = width_clauses_evaluated_and_replaced
    [of "''@media screen and ''" "''(max-width: 782px)''" "\<lambda>c w. w \<le> 782" "''{a{top:0}}''" 1024
        "''768''" 768, THEN conjunct1, rule_format, OF h1]
  note t2 = width_clauses_evaluated_and_replaced
    [of _ _ _ _ 1024 "''768''" 768, THEN conjunct2, THEN conjunct1, rule_format, OF h2]
  note t3 = width_clauses_evaluated_and_replaced
    [of _ _ _ _ 320 "''768''" 768, THEN conjunct2, THEN conjunct1, rule_format, OF h2]
  note t4 = width_clauses_evaluated_and_replaced
    [of "''@media ''" _ _ "''{a{top:0}}''" 499, THEN conjunct2, THEN conjunct2,
      THEN conjunct1, rule_format, OF h3]
  note t5 = width_clauses_evaluated_and_replaced
    [of "''@media ''" _ _ "''{a{top:0}}''" 500, THEN conjunct2, THEN conjunct2,
      THEN conjunct1, rule_format, OF h3]
  note t6 = width_clauses_evaluated_and_replaced
    [of _ _ css_match _ 320 _ _ parseText exampleWindow exampleWindowAt320 "[1, 3]"
        exampleOriginals 0 2,
      THEN conjunct2, THEN conjunct2, THEN conjunct2, rule_format, OF h4]
  have "cssRules (styleSheets exampleWindowAt320 ! 1) ! 2 =
        textRule ''@media (min-width:999999px){a{top:0}}''"
    using t6 v by simp
  then show ?thesis
    using h1 h2 h3 t1 t2 t3 t4 t5 r r2 example_activation
    by (simp add: DISABLED_MEDIA_QUERY_def)
qed

text \<open>
  Claim C2. Round trip: when the effect has run, and the browser reads the text of every
  replaceable media rule of the document back as a rule with that text, the cleanup
  succeeds, and afterwards every sheet has at every index a rule whose text is,
  character by character, the text of the rule that was there before the effect ran.
\<close>

theorem activate_then_deactivate_restores_texts:
  assumes "useSimulatedMediaQuery match parseRule win width = Inr (win1, closure)"
    and "\<forall>sh \<in> set (styleSheets win). \<forall>r \<in> set (cssRules sh).
           isReplaceableMediaRule r \<longrightarrow> reparses parseRule r"
  shows "\<exists>win2. cleanup parseRule closure win1 = Inr win2 \<and>
     hostname win2 = hostname win \<and>
     length (styleSheets win2) = length (styleSheets win) \<and>
     (\<forall>k < length (styleSheets win).
        href (styleSheets win2 ! k) = href (styleSheets win ! k) \<and>
        map cssText (cssRules (styleSheets win2 ! k)) =
          map cssText (cssRules (styleSheets win ! k)))"
proof -
  obtain matching orig where cl: "closure = (matching, orig)" by (cases closure)
  note act = assms(1) [unfolded cl]
  from cleanup_after_activation [OF act assms(2)] obtain doc2 where
    run: "restoreStyleSheets parseRule matching orig 0 (styleSheets win1) = Inr doc2" and
    l: "length doc2 = length (styleSheets win)" and
    c: "\<And>k. k < length (styleSheets win) \<Longrightarrow> href (doc2 ! k) = href (styleSheets win ! k) \<and>
        length (cssRules (doc2 ! k)) = length (cssRules (styleSheets win ! k)) \<and>
        (\<forall>j < length (cssRules (styleSheets win ! k)).
           cssText (cssRules (doc2 ! k) ! j) = cssText (cssRules (styleSheets win ! k) ! j))"
    by blast
  have "cleanup parseRule closure win1 = Inr (win1\<lparr>styleSheets := doc2\<rparr>)"
    unfolding cleanup_Inr cl using run by simp
  moreover have "hostname (win1\<lparr>styleSheets := doc2\<rparr>) = hostname win"
    using activation_parts(3) [OF act] by simp
  moreover have "\<forall>k < length (styleSheets win).
        href (doc2 ! k) = href (styleSheets win ! k) \<and>
        map cssText (cssRules (doc2 ! k)) = map cssText (cssRules (styleSheets win ! k))"
  proof (intro allI impI conjI)
    fix k assume k: "k < length (styleSheets win)"
    show "href (doc2 ! k) = href (styleSheets win ! k)" using c [OF k] by simp
    show "map cssText (cssRules (doc2 ! k)) = map cssText (cssRules (styleSheets win ! k))"
      using c [OF k] by (auto intro!: nth_equalityI)
  qed
  ultimately show ?thesis using l by simp
qed

theorem activate_then_deactivate_restores_texts_witness:
  "useSimulatedMediaQuery css_match parseText exampleWindow 320 =
     Inr (exampleWindowAt320, [1, 3], exampleOriginals) \<and>
   cleanup parseText ([1, 3], exampleOriginals) exampleWindowAt320 = Inr exampleWindow \<and>
   map cssText (cssRules (styleSheets exampleWindow ! 1)) =
     [''@media (min-width:600px){a{top:0}}'',
      ''#start-resizable-editor-section{display:none}'',
      ''@media (min-width:600px){a{top:0}}'',
      ''b{top:0}'',
      ''@media (max-width:782px) and (orientation:landscape){a{top:0}}'',
      ''#end-resizable-editor-section{display:none}'',
      ''@media (min-width:600px){a{top:0}}'']"
proof -
  from activate_then_deactivate_restores_texts [OF example_activation example_reparses]
  obtain win2 where
    "cleanup parseText ([1, 3], exampleOriginals) exampleWindowAt320 = Inr win2"
    "\<forall>k < length (styleSheets exampleWindow).
        href (styleSheets win2 ! k) = href (styleSheets exampleWindow ! k) \<and>
        map cssText (cssRules (styleSheets win2 ! k)) =
          map cssText (cssRules (styleSheets exampleWindow ! k))"
    by blast
  moreover have "map cssText (cssRules (styleSheets exampleWindow ! 1)) =
     [''@media (min-width:600px){a{top:0}}'',
      ''#start-resizable-editor-section{display:none}'',
      ''@media (min-width:600px){a{top:0}}'',
      ''b{top:0}'',
      ''@media (max-width:782px) and (orientation:landscape){a{top:0}}'',
      ''#end-resizable-editor-section{display:none}'',
      ''@media (min-width:600px){a{top:0}}'']"
    by code_simp
  ultimately show ?thesis
    using example_activation example_cleanup by simp
qed

text \<open>
  Claim C3, as amended. Region scoping: for every target width, a rule of a selected
  sheet is not rewritten and gets no saved original when no rule up to and including
  itself contains the start marker, or when it comes after a rule with the end marker
  and no rule behind that one, up to and including itself, contains the start marker.
\<close>

theorem rules_outside_region_untouched:
  assumes "useSimulatedMediaQuery match parseRule win width = Inr (win', matching, originalStyles)"
    and "n < length matching"
    and "rs = cssRules (styleSheets win ! (matching ! n))"
    and "j < length rs"
    and "(\<forall>i \<le> j. \<not> hasStartMarker (rs ! i)) \<or>
         (\<exists>e < j. hasEndMarker (rs ! e) \<and> (\<forall>i. e < i \<and> i \<le> j \<longrightarrow> \<not> hasStartMarker (rs ! i)))"
  shows "cssRules (styleSheets win' ! (matching ! n)) ! j = rs ! j \<and>
    savedOriginal originalStyles n j = None"
proof -
  note o = activation_outcome [OF assms(1)]
  have "\<not> relevantSectionBefore rs (Suc j)"
    using assms(5)
  proof
    assume "\<forall>i \<le> j. \<not> hasStartMarker (rs ! i)"
    then show ?thesis by (rule closed_before_start)
  next
    assume "\<exists>e < j. hasEndMarker (rs ! e) \<and> (\<forall>i. e < i \<and> i \<le> j \<longrightarrow> \<not> hasStartMarker (rs ! i))"
    then obtain e where "e < j" "hasEndMarker (rs ! e)"
      "\<forall>i. e < i \<and> i \<le> j \<longrightarrow> \<not> hasStartMarker (rs ! i)"
      by blast
    then show ?thesis using closed_after_end [of rs e j] by simp
  qed
  then have no: "\<not> isRewritten rs j" by (simp add: isRewritten_def)
  have "cssRules (styleSheets win' ! (matching ! n)) ! j = rs ! j"
    using o(3) [OF assms(2)] assms(4) no unfolding assms(3) rewrittenSheet_def by simp
  moreover have "savedOriginal originalStyles n j = None"
    using o(4) [of n j] no unfolding assms(3) by simp
  ultimately show ?thesis by simp
qed

theorem rules_outside_region_untouched_witness:
  "useSimulatedMediaQuery css_match parseText exampleWindow 320 =
     Inr (exampleWindowAt320, [1, 3], exampleOriginals) \<and>
   cssRules (styleSheets exampleWindowAt320 ! 1) ! 0 = cssRules editorSheet ! 0 \<and>
   savedOriginal exampleOriginals 0 0 = None \<and>
   hasEndMarker (cssRules editorSheet ! 5) \<and>
   cssRules (styleSheets exampleWindowAt320 ! 1) ! 6 = cssRules editorSheet ! 6 \<and>
   cssRules editorSheet ! 6 = textRule ''@media (min-width:600px){a{top:0}}'' \<and>
   savedOriginal exampleOriginals 0 6 = None"
proof -
  have n: "(0::nat) < length [1::nat, 3]" by simp
  have l0: "(0::nat) < length (cssRules editorSheet)" and l6: "6 < length (cssRules editorSheet)"
    by (simp_all add: editorSheet_def)
  have before: "\<forall>i \<le> 0. \<not> hasStartMarker (cssRules editorSheet ! i)"
    by code_simp
  have e5: "hasEndMarker (cssRules editorSheet ! 5)" by code_simp
  have s6: "\<not> hasStartMarker (cssRules editorSheet ! 6)" by code_simp
  have "\<And>i. 5 < i \<and> i \<le> (6::nat) \<Longrightarrow> i = 6" by arith
  then have "\<forall>i. 5 < i \<and> i \<le> 6 \<longrightarrow> \<not> hasStartMarker (cssRules editorSheet ! i)"
    using s6 by blast
  then have after: "\<exists>e < 6. hasEndMarker (cssRules editorSheet ! e) \<and>
      (\<forall>i. e < i \<and> i \<le> 6 \<longrightarrow> \<not> hasStartMarker (cssRules editorSheet ! i))"
    using e5 by (intro exI [of _ 5]) simp
  note a = rules_outside_region_untouched
    [OF example_activation n editor_rules l0 disjI1 [OF before]]
  note b = rules_outside_region_untouched
    [OF example_activation n editor_rules l6 disjI2 [OF after]]
  have r6: "cssRules editorSheet ! 6 = textRule ''@media (min-width:600px){a{top:0}}''"
    by (simp add: editorSheet_def)
  show ?thesis
    using a b e5 r6 example_activation by simp
qed

text \<open>
  The claim as it is written also promises that a rule is never touched when no
  region marker precedes it. That fails for a replaceable media rule that carries the
  start marker itself: in a sheet whose only rule is a media rule around the start
  marker, nothing precedes the rule, and the effect rewrites it.
\<close>

theorem rules_outside_region_counterexample:
  "getStyleSheetsThatMatchHostname startInsideMediaWindow = [0] \<and>
   cssRules (styleSheets startInsideMediaWindow ! 0) =
     [textRule ''@media (min-width:600px){#start-resizable-editor-section{display:none}}''] \<and>
   useSimulatedMediaQuery css_match parseText startInsideMediaWindow 320 =
     Inr (startInsideMediaWindow
            \<lparr>styleSheets :=
               [\<lparr>href = Some ''https://example.org/merged.css'',
                 cssRules =
                   [textRule ''@media (min-width:999999px){#start-resizable-editor-section{display:none}}'']\<rparr>]\<rparr>,
          [0],
          [Some [Some ''@media (min-width:600px){#start-resizable-editor-section{display:none}}'']])"
  by code_simp

text \<open>
  Claim C4. Host filtering: the filter selects only sheets whose \<open>href\<close> contains the
  host name. A sheet whose \<open>href\<close> is null or does not contain it is not selected, is the
  same after the effect and the same after the cleanup, and plays no part in the
  result: with any other such sheet in its place the effect does the same to all the
  other sheets and saves the same originals.
\<close>

theorem cross_origin_sheets_untouched:
  "(k \<in> set (getStyleSheetsThatMatchHostname win) \<longrightarrow>
      k < length (styleSheets win) \<and>
      (\<exists>h. href (styleSheets win ! k) = Some h \<and> str_includes h (hostname win)))
   \<and> (useSimulatedMediaQuery match parseRule win width = Inr (win', matching, originalStyles) \<and>
       k < length (styleSheets win) \<and>
       (\<forall>h. href (styleSheets win ! k) = Some h \<longrightarrow> \<not> str_includes h (hostname win)) \<longrightarrow>
        k \<notin> set matching \<and> styleSheets win' ! k = styleSheets win ! k \<and>
        (\<forall>x y. cleanup parseRule (matching, originalStyles) x = Inr y \<longrightarrow>
           styleSheets y ! k = styleSheets x ! k) \<and>
        (\<forall>other. (\<forall>h. href other = Some h \<longrightarrow> \<not> str_includes h (hostname win)) \<longrightarrow>
           useSimulatedMediaQuery match parseRule
             (win\<lparr>styleSheets := (styleSheets win)[k := other]\<rparr>) width =
           Inr (win'\<lparr>styleSheets := (styleSheets win')[k := other]\<rparr>, matching,
                originalStyles)))"
proof (intro conjI impI)
  assume "k \<in> set (getStyleSheetsThatMatchHostname win)"
  then show "k < length (styleSheets win)"
    and "\<exists>h. href (styleSheets win ! k) = Some h \<and> str_includes h (hostname win)"
    unfolding matching_member by blast+
next
  assume a: "useSimulatedMediaQuery match parseRule win width = Inr (win', matching, originalStyles) \<and>
       k < length (styleSheets win) \<and>
       (\<forall>h. href (styleSheets win ! k) = Some h \<longrightarrow> \<not> str_includes h (hostname win))"
  then have act: "useSimulatedMediaQuery match parseRule win width
      = Inr (win', matching, originalStyles)"
    and k: "k < length (styleSheets win)"
    and foreign: "\<forall>h. href (styleSheets win ! k) = Some h \<longrightarrow> \<not> str_includes h (hostname win)"
    by blast+
  note o = activation_outcome [OF act]
  note parts = activation_parts [OF act]
  show out: "k \<notin> set matching"
    unfolding parts(1) matching_member using foreign by blast
  show "styleSheets win' ! k = styleSheets win ! k"
    using o(2) [OF k out] .
  show "\<forall>x y. cleanup parseRule (matching, originalStyles) x = Inr y \<longrightarrow>
           styleSheets y ! k = styleSheets x ! k"
  proof (intro allI impI)
    fix x y assume "cleanup parseRule (matching, originalStyles) x = Inr y"
    then obtain doc where
      r: "restoreStyleSheets parseRule matching originalStyles 0 (styleSheets x) = Inr doc"
      and y: "y = x\<lparr>styleSheets := doc\<rparr>"
      unfolding cleanup_Inr by auto
    show "styleSheets y ! k = styleSheets x ! k"
      using restoreStyleSheets_frame [OF r out] y by simp
  qed
  show "\<forall>other. (\<forall>h. href other = Some h \<longrightarrow> \<not> str_includes h (hostname win)) \<longrightarrow>
           useSimulatedMediaQuery match parseRule
             (win\<lparr>styleSheets := (styleSheets win)[k := other]\<rparr>) width =
           Inr (win'\<lparr>styleSheets := (styleSheets win')[k := other]\<rparr>, matching,
                originalStyles)"
  proof (intro allI impI)
    fix other :: styleSheet
    assume "\<forall>h. href other = Some h \<longrightarrow> \<not> str_includes h (hostname win)"
    then have m: "getStyleSheetsThatMatchHostname
        (win\<lparr>styleSheets := (styleSheets win)[k := other]\<rparr>) = matching"
      unfolding parts(1) using k foreign by (intro matching_independent)
    have "scanStyleSheets match parseRule width matching 0 ((styleSheets win)[k := other]) [] =
        Inr ((styleSheets win')[k := other], originalStyles)"
      unfolding scanStyleSheets_independent [OF out] using parts(2) by simp
    then show "useSimulatedMediaQuery match parseRule
             (win\<lparr>styleSheets := (styleSheets win)[k := other]\<rparr>) width =
           Inr (win'\<lparr>styleSheets := (styleSheets win')[k := other]\<rparr>, matching,
                originalStyles)"
      using m act by (auto simp: useSimulatedMediaQuery_def Let_def split: sum.splits)
  qed
qed

theorem cross_origin_sheets_untouched_witness:
  "getStyleSheetsThatMatchHostname exampleWindow = [1, 3] \<and>
   href (styleSheets exampleWindow ! 1) = Some ''https://example.org/editor.css'' \<and>
   str_includes ''https://example.org/editor.css'' (hostname exampleWindow) \<and>
   useSimulatedMediaQuery css_match parseText exampleWindow 320 =
     Inr (exampleWindowAt320, [1, 3], exampleOriginals) \<and>
   href (styleSheets exampleWindow ! 0) = Some ''https://cdn.example.net/theme.css'' \<and>
   \<not> str_includes ''https://cdn.example.net/theme.css'' (hostname exampleWindow) \<and>
   styleSheets exampleWindowAt320 ! 0 = foreignSheet \<and>
   styleSheets exampleWindow ! 0 = foreignSheet \<and>
   isReplaceableMediaRule (cssRules foreignSheet ! 1) \<and>
   cleanup parseText ([1, 3], exampleOriginals) exampleWindowAt320 = Inr exampleWindow \<and>
   useSimulatedMediaQuery css_match parseText
     (exampleWindow\<lparr>styleSheets := (styleSheets exampleWindow)[0 := inlineSheet]\<rparr>) 320 =
     Inr (exampleWindowAt320\<lparr>styleSheets := (styleSheets exampleWindowAt320)[0 := inlineSheet]\<rparr>,
          [1, 3], exampleOriginals)"
proof -
  have m: "getStyleSheetsThatMatchHostname exampleWindow = [1, 3]" by code_simp
  have h1: "href (styleSheets exampleWindow ! 1) = Some ''https://example.org/editor.css''"
    "str_includes ''https://example.org/editor.css'' (hostname exampleWindow)"
    by code_simp+
  have h0: "href (styleSheets exampleWindow ! 0) = Some ''https://cdn.example.net/theme.css''"
    "\<not> str_includes ''https://cdn.example.net/theme.css'' (hostname exampleWindow)"
    by code_simp+
  have s0: "styleSheets exampleWindow ! 0 = foreignSheet"
    "isReplaceableMediaRule (cssRules foreignSheet ! 1)"
    by code_simp+
  have in1: "1 \<in> set (getStyleSheetsThatMatchHostname exampleWindow)" unfolding m by simp
  note t1 = cross_origin_sheets_untouched
    [of 1 exampleWindow css_match parseText 320 exampleWindowAt320 "[1, 3]" exampleOriginals,
      THEN conjunct1, rule_format, OF in1]
  have pre: "useSimulatedMediaQuery css_match parseText exampleWindow 320 =
       Inr (exampleWindowAt320, [1, 3], exampleOriginals) \<and>
     0 < length (styleSheets exampleWindow) \<and>
     (\<forall>h. href (styleSheets exampleWindow ! 0) = Some h \<longrightarrow>
          \<not> str_includes h (hostname exampleWindow))"
    using example_activation h0 by (simp add: exampleWindow_def)
  note t2 = cross_origin_sheets_untouched
    [of 0 exampleWindow css_match parseText 320 exampleWindowAt320 "[1, 3]" exampleOriginals,
      THEN conjunct2, rule_format, OF pre]
  have inl: "\<forall>h. href inlineSheet = Some h \<longrightarrow> \<not> str_includes h (hostname exampleWindow)"
    by (simp add: inlineSheet_def)
  have "styleSheets exampleWindowAt320 ! 0 = foreignSheet"
    using t2 s0 by simp
  moreover have "styleSheets exampleWindow ! 0 = styleSheets exampleWindowAt320 ! 0"
    using t2 [THEN conjunct2, THEN conjunct2, THEN conjunct1, rule_format, OF example_cleanup] .
  moreover note t2 [THEN conjunct2, THEN conjunct2, THEN conjunct2, THEN spec, THEN mp, OF inl]
  ultimately show ?thesis
    using m h1 h0 s0 example_activation example_cleanup by simp
qed

text \<open>
  Claim C5. Rewriting substitutes the width clauses only: in a segmented rule text every
  plain stretch, which is where clauses of other features such as \<open>orientation\<close> are,
  stands unchanged and in place in the rewritten text, and every rule text has such a
  cut into segments.
\<close>

theorem non_width_text_preserved:
  "(segmented segments rest \<longrightarrow>
      replaceMediaQueryWithWidthEvaluation match (assemble segments rest) w =
        assemble
          (map (\<lambda>(plain, clause).
             (plain, if match clause w then ENABLED_MEDIA_QUERY else DISABLED_MEDIA_QUERY))
             segments)
          rest)
   \<and> (\<exists>segments' rest'. ruleText = assemble segments' rest' \<and> segmented segments' rest')"
  using replace_segments text_has_segments by blast

theorem non_width_text_preserved_witness:
  "segmented [(''@media '', ''(min-width:600px)''), ('' and (orientation:landscape) and '', ''(max-width:782px)'')] ''{a{top:0}}''
   \<and> replaceMediaQueryWithWidthEvaluation css_match
        ''@media (min-width:600px) and (orientation:landscape) and (max-width:782px){a{top:0}}'' 1024 =
      ''@media (min-width:0px) and (orientation:landscape) and (min-width:999999px){a{top:0}}''"
proof -
  have h: "segmented [(''@media '', ''(min-width:600px)''), ('' and (orientation:landscape) and '', ''(max-width:782px)'')] ''{a{top:0}}''"
    by (simp add: segmented_def is_width_clause_def VALID_MEDIA_QUERY_REGEX_def min_or_max_def)
  note t = non_width_text_preserved [of _ _ css_match 1024 "[]", THEN conjunct1, rule_format, OF h]
  show ?thesis
    using h t
    by (simp add: assemble_def css_match_def px_length_def digit_value_def
        ENABLED_MEDIA_QUERY_def DISABLED_MEDIA_QUERY_def)
qed

text \<open>
  Claim C6. Saved originals: after the effect, the entry of \<open>originalStyles\<close> at a sheet
  index and a rule index is the text that the rule at this position had before the
  effect if the position was rewritten, and there is no entry if it was not; the
  positions that were rewritten are those where the sheet now holds the reading of the
  rewritten text. Being keyed by the two indices, an entry is the only one of its
  position.
\<close>

theorem saved_originals_invariant:
  assumes "useSimulatedMediaQuery match parseRule win width = Inr (win', matching, originalStyles)"
  shows "savedOriginal originalStyles n j =
      (if n < length matching \<and> isRewritten (cssRules (styleSheets win ! (matching ! n))) j
       then Some (cssText (cssRules (styleSheets win ! (matching ! n)) ! j)) else None)
    \<and> (n < length matching \<longrightarrow>
         rewrittenSheet match parseRule width
           (styleSheets win ! (matching ! n)) (styleSheets win' ! (matching ! n)))"
  using activation_outcome(3,4) [OF assms] by blast

theorem saved_originals_invariant_witness:
  "useSimulatedMediaQuery css_match parseText exampleWindow 320 =
     Inr (exampleWindowAt320, [1, 3], exampleOriginals) \<and>
   isRewritten (cssRules editorSheet) 4 \<and>
   savedOriginal exampleOriginals 0 4 =
     Some ''@media (max-width:782px) and (orientation:landscape){a{top:0}}'' \<and>
   \<not> isRewritten (cssRules editorSheet) 6 \<and>
   savedOriginal exampleOriginals 0 6 = None \<and>
   savedOriginal exampleOriginals 2 0 = None \<and>
   rewrittenSheet css_match parseText 320 editorSheet editorSheetAt320"
proof -
  have r4: "isRewritten (cssRules editorSheet) 4" and r6: "\<not> isRewritten (cssRules editorSheet) 6"
    by code_simp+
  have t4: "cssText (cssRules editorSheet ! 4) =
      ''@media (max-width:782px) and (orientation:landscape){a{top:0}}''"
    by code_simp
  have s: "styleSheets exampleWindow ! ([1, 3] ! 0) = editorSheet"
    "styleSheets exampleWindowAt320 ! ([1, 3] ! 0) = editorSheetAt320"
    by (simp_all add: exampleWindow_def exampleWindowAt320_def)
  note a = saved_originals_invariant [OF example_activation, of 0 4]
  note b = saved_originals_invariant [OF example_activation, of 0 6]
  note c = saved_originals_invariant [OF example_activation, of 2 0]
  show ?thesis
    using a b c r4 r6 t4 example_activation unfolding s by simp
qed

text \<open>
  Claim C7. The cleanup with nothing saved leaves the window as it is; a second run of
  the cleanup, right after a first one that has succeeded, succeeds and changes
  nothing; and where no rule is in a region, the effect itself changes nothing and
  saves nothing.
\<close>

theorem deactivate_idempotent:
  "cleanup parseRule (matching, []) win = Inr win
   \<and> (cleanup parseRule closure win1 = Inr win2 \<longrightarrow> cleanup parseRule closure win2 = Inr win2)
   \<and> ((\<forall>k \<in> set (getStyleSheetsThatMatchHostname win).
          \<forall>j. \<not> isRewritten (cssRules (styleSheets win ! k)) j) \<longrightarrow>
        useSimulatedMediaQuery match parseRule win width =
          Inr (win, getStyleSheetsThatMatchHostname win, []))"
proof (intro conjI impI)
  show "cleanup parseRule (matching, []) win = Inr win"
    by (simp add: cleanup_def)
next
  assume "cleanup parseRule closure win1 = Inr win2"
  then obtain doc where
    r: "restoreStyleSheets parseRule (fst closure) (snd closure) 0 (styleSheets win1) = Inr doc"
    and w2: "win2 = win1\<lparr>styleSheets := doc\<rparr>"
    unfolding cleanup_Inr by blast
  have "restoreStyleSheets parseRule (fst closure) (snd closure) 0 doc = Inr doc"
    using r by (rule restoreStyleSheets_idempotent)
  then show "cleanup parseRule closure win2 = Inr win2"
    unfolding cleanup_Inr w2 by simp
next
  assume none: "\<forall>k \<in> set (getStyleSheetsThatMatchHostname win).
          \<forall>j. \<not> isRewritten (cssRules (styleSheets win ! k)) j"
  have "\<forall>ref \<in> set (getStyleSheetsThatMatchHostname win).
      ref < length (styleSheets win) \<and> (\<forall>j. \<not> isRewritten (cssRules (styleSheets win ! ref)) j)"
    using none matching_in_range by blast
  then have "scanStyleSheets match parseRule width (getStyleSheetsThatMatchHostname win) 0
      (styleSheets win) [] = Inr (styleSheets win, [])"
    by (rule scanStyleSheets_nothing)
  then show "useSimulatedMediaQuery match parseRule win width =
          Inr (win, getStyleSheetsThatMatchHostname win, [])"
    by (simp add: useSimulatedMediaQuery_def)
qed

theorem deactivate_idempotent_witness:
  "cleanup parseText ([1, 3], exampleOriginals) exampleWindowAt320 = Inr exampleWindow \<and>
   cleanup parseText ([1, 3], exampleOriginals) exampleWindow = Inr exampleWindow \<and>
   cleanup parseText ([0], []) unmarkedWindow = Inr unmarkedWindow \<and>
   useSimulatedMediaQuery css_match parseText unmarkedWindow 320 = Inr (unmarkedWindow, [0], [])"
proof -
  note t = deactivate_idempotent
    [of parseText "[0]" unmarkedWindow "([1, 3], exampleOriginals)" exampleWindowAt320
        exampleWindow css_match 320]
  have m: "getStyleSheetsThatMatchHostname unmarkedWindow = [0]" by code_simp
  have "\<And>j. \<not> isRewritten (cssRules (styleSheets unmarkedWindow ! 0)) j"
  proof -
    fix j
    have "\<not> relevantSectionBefore (cssRules (styleSheets unmarkedWindow ! 0)) (Suc 0)"
      by code_simp
    moreover have "length (cssRules (styleSheets unmarkedWindow ! 0)) = 1"
      by (simp add: unmarkedWindow_def)
    ultimately show "\<not> isRewritten (cssRules (styleSheets unmarkedWindow ! 0)) j"
      by (cases j) (simp_all add: isRewritten_def)
  qed
  then have h: "\<forall>k \<in> set (getStyleSheetsThatMatchHostname unmarkedWindow).
          \<forall>j. \<not> isRewritten (cssRules (styleSheets unmarkedWindow ! k)) j"
    unfolding m by simp
  show ?thesis
    using t example_cleanup h m by simp
qed

text \<open>
  Claim C8. The two markers are treated differently: a rule whose text contains the end
  marker is not rewritten, whatever it is and whatever came before it; a rule whose
  text contains the start marker, and not the end marker too, is rewritten in the same
  pass when it is a replaceable media rule.
\<close>

theorem marker_rule_asymmetry:
  assumes "useSimulatedMediaQuery match parseRule win width = Inr (win', matching, originalStyles)"
    and "n < length matching"
    and "rs = cssRules (styleSheets win ! (matching ! n))"
    and "j < length rs"
  shows "(hasEndMarker (rs ! j) \<longrightarrow>
            cssRules (styleSheets win' ! (matching ! n)) ! j = rs ! j \<and>
            savedOriginal originalStyles n j = None)
    \<and> (hasStartMarker (rs ! j) \<and> \<not> hasEndMarker (rs ! j) \<and> isReplaceableMediaRule (rs ! j) \<longrightarrow>
            parseRule (replaceMediaQueryWithWidthEvaluation match (cssText (rs ! j)) width) =
              Some (cssRules (styleSheets win' ! (matching ! n)) ! j) \<and>
            savedOriginal originalStyles n j = Some (cssText (rs ! j)))"
proof (intro conjI impI)
  note o = activation_outcome [OF assms(1)]
  note sheet = o(3) [OF assms(2), unfolded rewrittenSheet_def, folded assms(3),
      THEN conjunct2, THEN conjunct2, rule_format, OF assms(4)]
  note saved = o(4) [of n j, folded assms(3)]
  {
    assume "hasEndMarker (rs ! j)"
    then have "\<not> relevantSectionBefore rs (Suc j)"
      unfolding relevantSectionBefore_Suc by blast
    then have no: "\<not> isRewritten rs j" by (simp add: isRewritten_def)
    show "cssRules (styleSheets win' ! (matching ! n)) ! j = rs ! j"
      using sheet no by simp
    show "savedOriginal originalStyles n j = None"
      using saved no by simp
  }
  {
    assume "hasStartMarker (rs ! j) \<and> \<not> hasEndMarker (rs ! j) \<and> isReplaceableMediaRule (rs ! j)"
    then have "relevantSectionBefore rs (Suc j)" and "isReplaceableMediaRule (rs ! j)"
      unfolding relevantSectionBefore_Suc by blast+
    then have yes: "isRewritten rs j" using assms(4) by (simp add: isRewritten_def)
    show "parseRule (replaceMediaQueryWithWidthEvaluation match (cssText (rs ! j)) width) =
              Some (cssRules (styleSheets win' ! (matching ! n)) ! j)"
      using sheet yes by simp
    show "savedOriginal originalStyles n j = Some (cssText (rs ! j))"
      using saved yes assms(2) by simp
  }
qed

theorem marker_rule_asymmetry_witness:
  "useSimulatedMediaQuery css_match parseText markersInsideWindow 320 =
     Inr (markersInsideWindowAt320, [0],
          [Some [Some ''@media (min-width:600px){#start-resizable-editor-section{display:none}}'',
                 Some ''@media (min-width:600px){a{top:0}}'']]) \<and>
   hasEndMarker (cssRules (styleSheets markersInsideWindow ! 0) ! 2) \<and>
   isReplaceableMediaRule (cssRules (styleSheets markersInsideWindow ! 0) ! 2) \<and>
   cssRules (styleSheets markersInsideWindowAt320 ! 0) ! 2 =
     cssRules (styleSheets markersInsideWindow ! 0) ! 2 \<and>
   hasStartMarker (cssRules (styleSheets markersInsideWindow ! 0) ! 0) \<and>
   \<not> hasEndMarker (cssRules (styleSheets markersInsideWindow ! 0) ! 0) \<and>
   isReplaceableMediaRule (cssRules (styleSheets markersInsideWindow ! 0) ! 0) \<and>
   cssRules (styleSheets markersInsideWindowAt320 ! 0) ! 0 =
     textRule ''@media (min-width:999999px){#start-resizable-editor-section{display:none}}''"
proof -
  define rs where "rs = cssRules (styleSheets markersInsideWindow ! ([0] ! 0))"
  have rs': "rs = cssRules (styleSheets markersInsideWindow ! 0)" by (simp add: rs_def)
  have n: "(0::nat) < length [0::nat]" by simp
  have l: "0 < length rs" "2 < length rs" by (simp_all add: rs_def markersInsideWindow_def)
  have e2: "hasEndMarker (rs ! 2)" and p2: "isReplaceableMediaRule (rs ! 2)"
    and s0: "hasStartMarker (rs ! 0) \<and> \<not> hasEndMarker (rs ! 0) \<and> isReplaceableMediaRule (rs ! 0)"
    unfolding rs' by code_simp+
  note a = marker_rule_asymmetry [OF markers_inside_activation n rs_def l(2),
      THEN conjunct1, rule_format, OF e2]
  note b = marker_rule_asymmetry [OF markers_inside_activation n rs_def l(1),
      THEN conjunct2, rule_format, OF s0]
  have v: "parseText (replaceMediaQueryWithWidthEvaluation css_match (cssText (rs ! 0)) 320) =
      Some (textRule ''@media (min-width:999999px){#start-resizable-editor-section{display:none}}'')"
    unfolding rs' by code_simp
  show ?thesis
    using a b e2 p2 s0 v markers_inside_activation unfolding rs' by simp
qed

text \<open>
  Claim C9, as amended. Unterminated region: when a rule of a selected sheet contains the
  start marker, and neither this rule nor any later rule of the sheet contains the end
  marker, every replaceable media rule from this rule to the end of the sheet is
  rewritten and its text saved.
\<close>

theorem unterminated_region_rewritten:
  assumes "useSimulatedMediaQuery match parseRule win width = Inr (win', matching, originalStyles)"
    and "n < length matching"
    and "rs = cssRules (styleSheets win ! (matching ! n))"
    and "hasStartMarker (rs ! start)"
    and "\<forall>i. start \<le> i \<and> i < length rs \<longrightarrow> \<not> hasEndMarker (rs ! i)"
    and "start \<le> j" and "j < length rs"
    and "isReplaceableMediaRule (rs ! j)"
  shows "parseRule (replaceMediaQueryWithWidthEvaluation match (cssText (rs ! j)) width) =
           Some (cssRules (styleSheets win' ! (matching ! n)) ! j) \<and>
         savedOriginal originalStyles n j = Some (cssText (rs ! j))"
proof -
  note o = activation_outcome [OF assms(1)]
  note sheet = o(3) [OF assms(2), unfolded rewrittenSheet_def, folded assms(3),
      THEN conjunct2, THEN conjunct2, rule_format, OF assms(7)]
  note saved = o(4) [of n j, folded assms(3)]
  have "\<forall>i. start \<le> i \<and> i \<le> j \<longrightarrow> \<not> hasEndMarker (rs ! i)"
    using assms(5,7) by simp
  then have "relevantSectionBefore rs (Suc j)"
    using open_after_start [OF assms(4,6)] by blast
  then have yes: "isRewritten rs j" using assms(7,8) by (simp add: isRewritten_def)
  show ?thesis using sheet saved yes assms(2) by simp
qed

theorem unterminated_region_rewritten_witness:
  "useSimulatedMediaQuery css_match parseText exampleWindow 320 =
     Inr (exampleWindowAt320, [1, 3], exampleOriginals) \<and>
   hasStartMarker (cssRules openSheet ! 1) \<and>
   isReplaceableMediaRule (cssRules openSheet ! 4) \<and>
   cssRules (styleSheets exampleWindowAt320 ! 3) ! 4 = textRule ''@media (min-width:0px){a{top:0}}'' \<and>
   savedOriginal exampleOriginals 1 4 = Some ''@media (max-width:782px){a{top:0}}''"
proof -
  have n: "(1::nat) < length [1::nat, 3]" by simp
  have s: "hasStartMarker (cssRules openSheet ! 1)" by code_simp
  have len: "length (cssRules openSheet) = 5" by (simp add: openSheet_def)
  have noend: "\<forall>i. 1 \<le> i \<and> i < length (cssRules openSheet) \<longrightarrow> \<not> hasEndMarker (cssRules openSheet ! i)"
  proof (intro allI impI)
    fix i assume "1 \<le> i \<and> i < length (cssRules openSheet)"
    then have "i = 1 \<or> i = 2 \<or> i = 3 \<or> i = 4" unfolding len by arith
    moreover have "\<not> hasEndMarker (cssRules openSheet ! 1)" "\<not> hasEndMarker (cssRules openSheet ! 2)"
      "\<not> hasEndMarker (cssRules openSheet ! 3)" "\<not> hasEndMarker (cssRules openSheet ! 4)"
      by code_simp+
    ultimately show "\<not> hasEndMarker (cssRules openSheet ! i)" by blast
  qed
  have j: "(1::nat) \<le> 4" "4 < length (cssRules openSheet)" by (simp_all add: len)
  have p: "isReplaceableMediaRule (cssRules openSheet ! 4)" by code_simp
  note t = unterminated_region_rewritten
    [OF example_activation n open_rules s noend j p]
  have v: "parseText (replaceMediaQueryWithWidthEvaluation css_match
        (cssText (cssRules openSheet ! 4)) 320) = Some (textRule ''@media (min-width:0px){a{top:0}}'')"
    "cssText (cssRules openSheet ! 4) = ''@media (max-width:782px){a{top:0}}''"
    by code_simp+
  show ?thesis
    using t s p v example_activation by simp
qed

text \<open>
  The claim as it is written asks only that no end-marker rule follows the start-marker
  rule. That is not enough when the start-marker rule contains the end marker as well:
  in the sheet where the two marker rules are merged into one, no rule follows with an
  end marker, and the media rule behind the markers stays as it is.
\<close>

theorem unterminated_region_counterexample:
  "hasStartMarker (cssRules (styleSheets mergedMarkersWindow ! 0) ! 0) \<and>
   \<not> hasEndMarker (cssRules (styleSheets mergedMarkersWindow ! 0) ! 1) \<and>
   length (cssRules (styleSheets mergedMarkersWindow ! 0)) = 2 \<and>
   isReplaceableMediaRule (cssRules (styleSheets mergedMarkersWindow ! 0) ! 1) \<and>
   useSimulatedMediaQuery css_match parseText mergedMarkersWindow 320 =
     Inr (mergedMarkersWindow, [0], [])"
  by code_simp

text \<open>
  Claim C10. A replacement, the delete at an index followed by the insert at the same
  index, keeps the number of rules and leaves the rule at every other index where it
  was. So the effect never fails on an index, the one failure it can end in being a
  rule text that the browser refuses; it leaves every sheet with as many rules as
  before; and the cleanup that follows it cannot fail on an index either and keeps
  the numbers of rules too.
\<close>

theorem rule_count_stable:
  "(replaceRule parseRule sh newRuleText index = Inr sh' \<longrightarrow>
      length (cssRules sh') = length (cssRules sh) \<and>
      (\<forall>j < length (cssRules sh). j \<noteq> index \<longrightarrow> cssRules sh' ! j = cssRules sh ! j))
   \<and> (useSimulatedMediaQuery match parseRule win width = Inl e \<longrightarrow> e = SyntaxError)
   \<and> (useSimulatedMediaQuery match parseRule win width = Inr (win1, closure) \<longrightarrow>
        (\<forall>k < length (styleSheets win).
           length (cssRules (styleSheets win1 ! k)) = length (cssRules (styleSheets win ! k))) \<and>
        (\<forall>e'. cleanup parseRule closure win1 = Inl e' \<longrightarrow> e' = SyntaxError) \<and>
        (\<forall>win2. cleanup parseRule closure win1 = Inr win2 \<longrightarrow>
           (\<forall>k < length (styleSheets win).
              length (cssRules (styleSheets win2 ! k)) =
                length (cssRules (styleSheets win ! k)))))"
proof (intro conjI impI)
  assume "replaceRule parseRule sh newRuleText index = Inr sh'"
  then obtain r where "sh' = sh\<lparr>cssRules := (cssRules sh)[index := r]\<rparr>"
    unfolding replaceRule_Inr by blast
  then show "length (cssRules sh') = length (cssRules sh)"
    and "\<forall>j < length (cssRules sh). j \<noteq> index \<longrightarrow> cssRules sh' ! j = cssRules sh ! j"
    by simp_all
next
  assume "useSimulatedMediaQuery match parseRule win width = Inl e"
  then show "e = SyntaxError"
    using activation_total [of match parseRule win width] by auto
next
  assume a: "useSimulatedMediaQuery match parseRule win width = Inr (win1, closure)"
  obtain matching orig where cl: "closure = (matching, orig)" by (cases closure)
  note act = a [unfolded cl]
  note o = activation_outcome [OF act]
  note parts = activation_parts [OF act]
  show lens: "\<forall>k < length (styleSheets win).
       length (cssRules (styleSheets win1 ! k)) = length (cssRules (styleSheets win ! k))"
  proof (intro allI impI)
    fix k assume k: "k < length (styleSheets win)"
    show "length (cssRules (styleSheets win1 ! k)) = length (cssRules (styleSheets win ! k))"
    proof (cases "k \<in> set matching")
      case False
      then show ?thesis using o(2) [OF k] by simp
    next
      case True
      then obtain n where "n < length matching" "matching ! n = k"
        by (auto simp: in_set_conv_nth)
      then show ?thesis using o(3) [of n] by (simp add: rewrittenSheet_def)
    qed
  qed
  have pre: "\<forall>n j t. savedOriginal orig n j = Some t \<longrightarrow> t \<noteq> [] \<longrightarrow>
      (0 + n < length matching \<and> matching ! (0 + n) < length (styleSheets win1) \<and>
       j < length (cssRules (styleSheets win1 ! (matching ! (0 + n)))))"
    using activation_saved_valid(1-3) [OF act] by simp
  show "\<forall>e'. cleanup parseRule closure win1 = Inl e' \<longrightarrow> e' = SyntaxError"
  proof (intro allI impI)
    fix e' assume "cleanup parseRule closure win1 = Inl e'"
    then have "restoreStyleSheets parseRule matching orig 0 (styleSheets win1) = Inl e'"
      by (auto simp: cleanup_def cl split: sum.splits)
    then show "e' = SyntaxError" using pre by (rule restoreStyleSheets_error)
  qed
  show "\<forall>win2. cleanup parseRule closure win1 = Inr win2 \<longrightarrow>
           (\<forall>k < length (styleSheets win).
              length (cssRules (styleSheets win2 ! k)) =
                length (cssRules (styleSheets win ! k)))"
  proof (intro allI impI)
    fix win2 k assume c: "cleanup parseRule closure win1 = Inr win2"
      and k: "k < length (styleSheets win)"
    from c obtain doc where
      r: "restoreStyleSheets parseRule matching orig 0 (styleSheets win1) = Inr doc"
      and w2: "win2 = win1\<lparr>styleSheets := doc\<rparr>"
      unfolding cleanup_Inr cl by auto
    have "sameShape (styleSheets win1) doc" using r by (rule restoreStyleSheets_sameShape)
    then have "length (cssRules (doc ! k)) = length (cssRules (styleSheets win1 ! k))"
      using k o(1) by (simp add: sameShape_def)
    then show "length (cssRules (styleSheets win2 ! k)) =
                length (cssRules (styleSheets win ! k))"
      using lens k w2 by simp
  qed
qed

theorem rule_count_stable_witness:
  "replaceRule parseText openSheet ''@media (min-width:0px){a{top:0}}'' 4 =
     Inr (openSheet\<lparr>cssRules :=
            (cssRules openSheet)[4 := textRule ''@media (min-width:0px){a{top:0}}'']\<rparr>) \<and>
   length (cssRules (openSheet\<lparr>cssRules :=
            (cssRules openSheet)[4 := textRule ''@media (min-width:0px){a{top:0}}'']\<rparr>)) = 5 \<and>
   useSimulatedMediaQuery css_match (\<lambda>t. None) exampleWindow 320 = Inl SyntaxError \<and>
   useSimulatedMediaQuery css_match rejectingParse exampleWindow 320 =
     Inr (exampleWindowAt320, [1, 3], exampleOriginals) \<and>
   length (cssRules (styleSheets exampleWindowAt320 ! 1)) = 7 \<and>
   cleanup rejectingParse ([1, 3], exampleOriginals) exampleWindowAt320 = Inl SyntaxError \<and>
   useSimulatedMediaQuery css_match parseText exampleWindow 320 =
     Inr (exampleWindowAt320, [1, 3], exampleOriginals) \<and>
   cleanup parseText ([1, 3], exampleOriginals) exampleWindowAt320 = Inr exampleWindow \<and>
   length (cssRules (styleSheets exampleWindow ! 1)) = 7"
proof -
  define sh' where "sh' = openSheet\<lparr>cssRules :=
            (cssRules openSheet)[4 := textRule ''@media (min-width:0px){a{top:0}}'']\<rparr>"
  have r: "replaceRule parseText openSheet ''@media (min-width:0px){a{top:0}}'' 4 = Inr sh'"
    unfolding sh'_def by code_simp
  have l5: "length (cssRules openSheet) = 5" by (simp add: openSheet_def)
  have f: "useSimulatedMediaQuery css_match (\<lambda>t. None) exampleWindow 320 = Inl SyntaxError"
    by code_simp
  have a: "useSimulatedMediaQuery css_match rejectingParse exampleWindow 320 =
     Inr (exampleWindowAt320, [1, 3], exampleOriginals)"
    by code_simp
  have c: "cleanup rejectingParse ([1, 3], exampleOriginals) exampleWindowAt320 = Inl SyntaxError"
    by code_simp
  have l: "length (cssRules (styleSheets exampleWindow ! 1)) = 7"
    "(1::nat) < length (styleSheets exampleWindow)"
    by (simp_all add: exampleWindow_def editorSheet_def)
  note t1 = rule_count_stable
    [of parseText openSheet "''@media (min-width:0px){a{top:0}}''" 4 sh'
        css_match exampleWindow 320 SyntaxError exampleWindowAt320 "([1, 3], exampleOriginals)",
      THEN conjunct1, rule_format, OF r]
  note t2 = rule_count_stable
    [of "\<lambda>t. None" openSheet "''''" 4 openSheetAt320
        css_match exampleWindow 320 SyntaxError exampleWindowAt320 "([1, 3], exampleOriginals)",
      THEN conjunct2, THEN conjunct1, rule_format, OF f]
  note t3 = rule_count_stable
    [of rejectingParse openSheet "''''" 4 openSheetAt320
        css_match exampleWindow 320 SyntaxError exampleWindowAt320 "([1, 3], exampleOriginals)",
      THEN conjunct2, THEN conjunct2, rule_format, OF a]
  note t4 = rule_count_stable
    [of parseText openSheet "''''" 4 openSheetAt320
        css_match exampleWindow 320 SyntaxError exampleWindowAt320 "([1, 3], exampleOriginals)",
      THEN conjunct2, THEN conjunct2, rule_format, OF example_activation]
  have "length (cssRules (styleSheets exampleWindowAt320 ! 1)) = 7"
    using t3 [THEN conjunct1, rule_format, OF l(2)] l(1) by simp
  moreover have "SyntaxError = SyntaxError"
    using t3 [THEN conjunct2, THEN conjunct1, rule_format, OF c] .
  moreover have "length (cssRules (styleSheets exampleWindow ! 1)) =
      length (cssRules (styleSheets exampleWindow ! 1))"
    using t4 [THEN conjunct2, THEN conjunct2, rule_format, OF example_cleanup l(2)] .
  moreover have "length (cssRules sh') = 5"
    using t1 l5 by simp
  ultimately show ?thesis
    using r f a c l(1) t2 example_activation example_cleanup unfolding sh'_def by simp
qed

end
